theory Spec2Isabelle
  imports Main "HOL-Library.AList"
begin

section \<open>Jikan API proxy: cache, resolver, dispatcher and response envelope\<close>

text \<open>
  A shallow embedding of \<^verbatim>\<open>src/index.js\<close>. Strings are byte strings, times are
  milliseconds as \<^typ>\<open>int\<close> (\<^verbatim>\<open>Date.now()\<close>), the module-level \<^verbatim>\<open>cache\<close> is an association
  list in insertion order (a JavaScript \<^verbatim>\<open>Map\<close>), and every mutation is explicit state
  passing. Logging (\<^verbatim>\<open>log\<close>, \<^verbatim>\<open>console.log\<close>) and the floating-point response-time samples of
  \<^verbatim>\<open>performance.now()\<close> are left out: no other state depends on them.
\<close>

subsection \<open>Values\<close>

text \<open>
  The values that reach the response envelope: parsed JSON, as \<^verbatim>\<open>response.json()\<close> returns it,
  and \<^verbatim>\<open>undefined\<close> and a function, which only a call of a member inherited from
  \<^verbatim>\<open>Object.prototype\<close> returns. An object is the list of its own enumerable properties.
\<close>

datatype json =
    JNull
  | JBool bool
  | JNum int
  | JStr string
  | JArr "json list"
  | JObj "(string \<times> json) list"
  | JUndefined
  | JFunction

text \<open>Decimal rendering of an array index or a status code (template literals).\<close>

function show_nat :: "nat \<Rightarrow> string" where
  "show_nat n =
     (if n < 10 then [char_of (48 + n)]
      else show_nat (n div 10) @ [char_of (48 + n mod 10)])"
  by pat_completeness auto
termination
  by (relation "measure id") auto

text \<open>
  The own enumerable properties that an object spread \<^verbatim>\<open>...x\<close> copies: the properties of an
  object, the indices of an array or of a string, nothing for the other values.
\<close>

fun own_props :: "json \<Rightarrow> (string \<times> json) list" where
  "own_props (JObj kvs) = kvs"
| "own_props (JArr xs) = zip (map show_nat [0..<length xs]) xs"
| "own_props (JStr s) = zip (map show_nat [0..<length s]) (map (\<lambda>c. JStr [c]) s)"
| "own_props _ = []"

text \<open>Reading a property of a value: the last definition of a name is the one that counts.\<close>

definition prop_of :: "json \<Rightarrow> string \<Rightarrow> json option" where
  "prop_of j k = map_of (rev (own_props j)) k"

text \<open>
  \<^verbatim>\<open>{ ...base, ...x }\<close>: each copied property overwrites the property of the same name and
  keeps its position, or is appended.
\<close>

definition spread :: "(string \<times> json) list \<Rightarrow> json \<Rightarrow> (string \<times> json) list" where
  "spread base x = fold (\<lambda>(k, v). AList.update k v) (own_props x) base"

subsection \<open>The TTL cache\<close>

record cache_item =
  timestamp :: int
  duration :: int
  data :: json

type_synonym cache = "(string \<times> cache_item) list"

definition CACHE_DURATION :: int where
  "CACHE_DURATION = 60 * 60 * 1000"

text \<open>
  Lines 99-109 of \<^verbatim>\<open>fetchWithCache\<close>: the lookup. A present and fresh entry is a hit; a present
  and stale entry is deleted; the result is the payload on a hit and the cache afterwards.
\<close>

definition cache_lookup :: "int \<Rightarrow> string \<Rightarrow> cache \<Rightarrow> json option \<times> cache" where
  "cache_lookup now cacheKey c =
     (case map_of c cacheKey of
        None \<Rightarrow> (None, c)
      | Some cachedData \<Rightarrow>
          if now - timestamp cachedData < duration cachedData
          then (Some (data cachedData), c)
          else (None, AList.delete cacheKey c))"

text \<open>Lines 125-129 of \<^verbatim>\<open>fetchWithCache\<close>: \<^verbatim>\<open>cache.set(cacheKey, {timestamp: now, ...})\<close>.\<close>

definition cache_store :: "int \<Rightarrow> string \<Rightarrow> json \<Rightarrow> int \<Rightarrow> cache \<Rightarrow> cache" where
  "cache_store now cacheKey v cacheDuration c =
     AList.update cacheKey \<lparr>timestamp = now, duration = cacheDuration, data = v\<rparr> c"

text \<open>
  The hourly cleanup (lines 578-592): a loop over the entries that deletes each entry with
  \<^verbatim>\<open>now - value.timestamp > value.duration\<close> and counts the deletions.
\<close>

definition cleanup_entry :: "int \<Rightarrow> string \<times> cache_item \<Rightarrow> cache \<times> nat \<Rightarrow> cache \<times> nat" where
  "cleanup_entry now kv s =
     (if now - timestamp (snd kv) > duration (snd kv)
      then (AList.delete (fst kv) (fst s), Suc (snd s))
      else s)"

definition cleanup :: "int \<Rightarrow> cache \<Rightarrow> cache \<times> nat" where
  "cleanup now c = fold (cleanup_entry now) c (c, 0)"

subsection \<open>The disk image\<close>

text \<open>
  \<^verbatim>\<open>CacheIndex\<close> is \<^verbatim>\<open>cache/cache-index.json\<close>; \<^verbatim>\<open>CacheFile key\<close> is the file named by the base64
  encoding of the key, which is injective. \<^verbatim>\<open>writeFileSync\<close> throws on a path the environment
  refuses (\<open>unwritable\<close>); \<open>None\<close> is the exception.
\<close>

datatype path = CacheIndex | CacheFile string

datatype content = IndexContent "string list" | ItemContent cache_item

record disk =
  files :: "path \<Rightarrow> content option"
  unwritable :: "path \<Rightarrow> bool"

definition writeFileSync :: "path \<Rightarrow> content \<Rightarrow> disk \<Rightarrow> disk option" where
  "writeFileSync p x d =
     (if unwritable d p then None else Some (d\<lparr>files := (files d)(p \<mapsto> x)\<rparr>))"

text \<open>
  The loop of \<^verbatim>\<open>saveCacheToDisk\<close> (lines 66-69). It sits inside the one \<^verbatim>\<open>try\<close> block of the
  function, so the first write that throws ends the loop.
\<close>

fun write_entries :: "cache \<Rightarrow> disk \<Rightarrow> disk" where
  "write_entries [] d = d"
| "write_entries ((key, v) # rest) d =
     (case writeFileSync (CacheFile key) (ItemContent v) d of
        None \<Rightarrow> d
      | Some d' \<Rightarrow> write_entries rest d')"

definition saveCacheToDisk :: "cache \<Rightarrow> disk \<Rightarrow> disk" where
  "saveCacheToDisk c d =
     (case writeFileSync CacheIndex (IndexContent (map fst c)) d of
        None \<Rightarrow> d
      | Some d' \<Rightarrow> write_entries c d')"

subsection \<open>Query parameters\<close>

text \<open>
  \<^verbatim>\<open>URLSearchParams\<close>: the decoded name-value pairs in arrival order. \<^verbatim>\<open>get\<close> returns the first
  value of a name. \<^verbatim>\<open>toString\<close> is the \<^verbatim>\<open>application/x-www-form-urlencoded\<close> serializer of the
  URL standard: letters, digits and \<^verbatim>\<open>*-._\<close> stay, a space becomes \<^verbatim>\<open>+\<close>, every other byte
  becomes \<^verbatim>\<open>%XX\<close>.
\<close>

type_synonym params = "(string \<times> string) list"

definition unreserved :: "char \<Rightarrow> bool" where
  "unreserved c \<longleftrightarrow>
     c \<in> set ''*-._0123456789ABCDEFGHIJKLMNOPQRSTUVWXYZabcdefghijklmnopqrstuvwxyz''"

definition hex_digit :: "nat \<Rightarrow> char" where
  "hex_digit n = ''0123456789ABCDEF'' ! (n mod 16)"

definition encode_byte :: "char \<Rightarrow> string" where
  "encode_byte c =
     (if unreserved c then [c]
      else if c = CHR '' '' then ''+''
      else [CHR ''%'', hex_digit (of_char c div 16), hex_digit (of_char c mod 16)])"

definition urlencode :: "string \<Rightarrow> string" where
  "urlencode s = concat (map encode_byte s)"

fun toString :: "params \<Rightarrow> string" where
  "toString [] = []"
| "toString [(k, v)] = urlencode k @ ''='' @ urlencode v"
| "toString ((k, v) # p # ps) = urlencode k @ ''='' @ urlencode v @ ''&'' @ toString (p # ps)"

text \<open>\<^verbatim>\<open>params.get(name)\<close> where the code tests it for truth: null and the empty string are false.\<close>

definition get_truthy :: "params \<Rightarrow> string \<Rightarrow> string option" where
  "get_truthy ps name =
     (case map_of ps name of
        None \<Rightarrow> None
      | Some v \<Rightarrow> if v = [] then None else Some v)"

text \<open>\<^verbatim>\<open>params.get(name) || dflt\<close>.\<close>

definition get_or :: "params \<Rightarrow> string \<Rightarrow> string \<Rightarrow> string" where
  "get_or ps name dflt = (case get_truthy ps name of None \<Rightarrow> dflt | Some v \<Rightarrow> v)"

subsection \<open>The endpoint handlers\<close>

text \<open>
  What a handler asks for: \<^verbatim>\<open>fetchWithCache(url, cacheKey, cacheDuration)\<close>, a plain \<^verbatim>\<open>fetch(url)\<close>
  (\<^verbatim>\<open>random\<close>), or the local statistics (\<^verbatim>\<open>stats\<close>).
\<close>

datatype plan =
    Cached (plan_url: string) (plan_key: string) (plan_ttl: int)
  | Uncached string
  | Local

definition BASE_URL :: string where
  "BASE_URL = ''https://api.jikan.moe/v4''"

definition hours :: "int \<Rightarrow> int" where
  "hours n = n * 60 * 60 * 1000"

definition anime_handler :: "params \<Rightarrow> plan" where
  "anime_handler ps =
     (case get_truthy ps ''id'' of
        Some ident \<Rightarrow> Cached (BASE_URL @ ''/anime/'' @ ident) (''anime_'' @ ident) CACHE_DURATION
      | None \<Rightarrow>
          Cached (BASE_URL @ ''/anime?'' @ toString ps) (''anime_search_'' @ toString ps)
            CACHE_DURATION)"

definition manga_handler :: "params \<Rightarrow> plan" where
  "manga_handler ps =
     (case get_truthy ps ''id'' of
        Some ident \<Rightarrow> Cached (BASE_URL @ ''/manga/'' @ ident) (''manga_'' @ ident) CACHE_DURATION
      | None \<Rightarrow>
          Cached (BASE_URL @ ''/manga?'' @ toString ps) (''manga_search_'' @ toString ps)
            CACHE_DURATION)"

definition seasons_handler :: "params \<Rightarrow> plan" where
  "seasons_handler ps =
     (case (get_truthy ps ''year'', get_truthy ps ''season'') of
        (Some year, Some season) \<Rightarrow>
          Cached (BASE_URL @ ''/seasons/'' @ year @ ''/'' @ season)
            (''season_'' @ year @ ''_'' @ season) (hours 12)
      | _ \<Rightarrow>
          if map_of ps ''now'' = Some ''true''
          then Cached (BASE_URL @ ''/seasons/now'') ''season_now'' (hours 6)
          else Cached (BASE_URL @ ''/seasons'') ''seasons_list'' (hours 24))"

definition top_handler :: "params \<Rightarrow> plan" where
  "top_handler ps =
     (let type = get_or ps ''type'' ''anime'';
          filter = get_or ps ''filter'' [];
          page = get_or ps ''page'' ''1''
      in Cached
           (BASE_URL @ ''/top/'' @ type @ (if filter \<noteq> [] then ''/'' @ filter else [])
              @ ''?page='' @ page)
           (''top_'' @ type @ ''_'' @ filter @ ''_'' @ page) (hours 3))"

definition schedule_handler :: "params \<Rightarrow> plan" where
  "schedule_handler ps =
     (let day = get_or ps ''day'' []
      in Cached (BASE_URL @ ''/schedules'' @ (if day \<noteq> [] then ''/'' @ day else []))
           (''schedule_'' @ (if day \<noteq> [] then day else ''all'')) (hours 12))"

definition genres_handler :: "params \<Rightarrow> plan" where
  "genres_handler ps =
     (let type = get_or ps ''type'' ''anime''
      in Cached (BASE_URL @ ''/genres/'' @ type) (''genres_'' @ type) (hours (7 * 24)))"

definition characters_handler :: "params \<Rightarrow> plan" where
  "characters_handler ps =
     (case get_truthy ps ''id'' of
        Some ident \<Rightarrow>
          Cached (BASE_URL @ ''/characters/'' @ ident) (''character_'' @ ident) (hours (7 * 24))
      | None \<Rightarrow>
          (let query = filter (\<lambda>(key, value). key \<noteq> ''id'') ps
           in Cached (BASE_URL @ ''/characters?'' @ toString query)
                (''characters_search_'' @ toString query) CACHE_DURATION))"

definition people_handler :: "params \<Rightarrow> plan" where
  "people_handler ps =
     (case get_truthy ps ''id'' of
        Some ident \<Rightarrow>
          Cached (BASE_URL @ ''/people/'' @ ident) (''person_'' @ ident) (hours (7 * 24))
      | None \<Rightarrow>
          (let query = filter (\<lambda>(key, value). key \<noteq> ''id'') ps
           in Cached (BASE_URL @ ''/people?'' @ toString query)
                (''people_search_'' @ toString query) CACHE_DURATION))"

definition random_handler :: "params \<Rightarrow> plan" where
  "random_handler ps = Uncached (BASE_URL @ ''/random/'' @ get_or ps ''type'' ''anime'')"

definition reviews_handler :: "params \<Rightarrow> plan" where
  "reviews_handler ps =
     (let type = get_or ps ''type'' ''anime''; page = get_or ps ''page'' ''1''
      in Cached (BASE_URL @ ''/reviews/'' @ type @ ''?page='' @ page)
           (''reviews_'' @ type @ ''_'' @ page) (hours 6))"

definition recommendations_handler :: "params \<Rightarrow> plan" where
  "recommendations_handler ps =
     (let type = get_or ps ''type'' ''anime''; page = get_or ps ''page'' ''1''
      in Cached (BASE_URL @ ''/recommendations/'' @ type @ ''?page='' @ page)
           (''recommendations_'' @ type @ ''_'' @ page) (hours 12))"

definition studios_handler :: "params \<Rightarrow> plan" where
  "studios_handler ps =
     (case get_truthy ps ''id'' of
        Some ident \<Rightarrow>
          Cached (BASE_URL @ ''/studios/'' @ ident) (''studio_'' @ ident) (hours (7 * 24))
      | None \<Rightarrow> Cached (BASE_URL @ ''/studios'') ''studios_list'' (hours (7 * 24)))"

definition stats_handler :: "params \<Rightarrow> plan" where
  "stats_handler ps = Local"

text \<open>The \<^verbatim>\<open>handlers\<close> object, in declaration order.\<close>

definition handlers :: "(string \<times> (params \<Rightarrow> plan)) list" where
  "handlers =
     [(''anime'', anime_handler), (''manga'', manga_handler), (''seasons'', seasons_handler),
      (''top'', top_handler), (''schedule'', schedule_handler), (''genres'', genres_handler),
      (''characters'', characters_handler), (''people'', people_handler),
      (''random'', random_handler), (''reviews'', reviews_handler),
      (''recommendations'', recommendations_handler), (''studios'', studios_handler),
      (''stats'', stats_handler)]"

text \<open>
  \<^verbatim>\<open>handlersWithStats[endpoint]\<close>. The object is a plain object, so besides its own properties
  (the handlers, each wrapped by the middleware) the lookup finds the members that it inherits
  from \<^verbatim>\<open>Object.prototype\<close>; every one of them is truthy. The server lower-cases the path, which
  leaves \<^verbatim>\<open>constructor\<close> and \<^verbatim>\<open>__proto__\<close> as the inherited names that a request can carry.
\<close>

definition object_prototype :: "string list" where
  "object_prototype =
     [''constructor'', ''__defineGetter__'', ''__defineSetter__'', ''hasOwnProperty'',
      ''__lookupGetter__'', ''__lookupSetter__'', ''isPrototypeOf'', ''propertyIsEnumerable'',
      ''toString'', ''valueOf'', ''__proto__'', ''toLocaleString'']"

datatype member =
    Own "params \<Rightarrow> plan"
  | Inherited string
  | Absent

definition lookup_handler :: "string \<Rightarrow> member" where
  "lookup_handler endpoint =
     (case map_of handlers endpoint of
        Some handler \<Rightarrow> Own handler
      | None \<Rightarrow> if endpoint \<in> set object_prototype then Inherited endpoint else Absent)"

text \<open>
  The call \<^verbatim>\<open>handlersWithStats[name](searchParams)\<close> of an inherited member, with the object as
  \<^verbatim>\<open>this\<close>. \<^verbatim>\<open>constructor\<close> is \<^verbatim>\<open>Object\<close> and returns its argument, an object without own
  enumerable properties; \<^verbatim>\<open>__proto__\<close> is the prototype object, not a function, and the two
  \<^verbatim>\<open>__define...__\<close> members reject a missing accessor function: these calls throw a
  \<^verbatim>\<open>TypeError\<close> (its message is the engine's; a fixed text stands for it). The members that
  take a property key convert \<^verbatim>\<open>searchParams\<close> to its query string.
\<close>

definition inherited_call :: "string \<Rightarrow> params \<Rightarrow> string + json" where
  "inherited_call name ps =
     (if name = ''constructor'' then Inr (JObj [])
      else if name = ''hasOwnProperty'' \<or> name = ''propertyIsEnumerable''
      then Inr (JBool (toString ps \<in> set (map fst handlers)))
      else if name = ''isPrototypeOf'' then Inr (JBool False)
      else if name = ''toString'' \<or> name = ''toLocaleString''
      then Inr (JStr ''[object Object]'')
      else if name = ''valueOf'' then Inr (JObj (map (\<lambda>h. (fst h, JFunction)) handlers))
      else if name = ''__lookupGetter__'' \<or> name = ''__lookupSetter__'' then Inr JUndefined
      else Inl ''TypeError'')"

subsection \<open>Statistics and the performance middleware\<close>

text \<open>The counters of the module-level \<^verbatim>\<open>stats\<close>; \<^verbatim>\<open>startTime\<close>, \<^verbatim>\<open>responseTime\<close> and
  \<^verbatim>\<open>totalResponseTime\<close> hold wall-clock and floating-point samples and are left out.\<close>

record endpoint_stats =
  calls :: nat
  endpoint_errors :: nat

record stats =
  requests :: nat
  cacheHits :: nat
  cacheMisses :: nat
  errors :: nat
  endpoints :: "(string \<times> endpoint_stats) list"

text \<open>What a rejected request carries: the two \<^verbatim>\<open>new Error(...)\<close> of the code, or anything thrown
  by \<^verbatim>\<open>fetch\<close> or \<^verbatim>\<open>response.json()\<close>.\<close>

datatype error =
    ApiError nat string
  | RandomApiError nat
  | Thrown string

definition error_message :: "error \<Rightarrow> string" where
  "error_message e =
     (case e of
        ApiError status errorText \<Rightarrow>
          ''API responded with status: '' @ show_nat status @ '' - '' @ errorText
      | RandomApiError status \<Rightarrow> ''Random API responded with status: '' @ show_nat status
      | Thrown m \<Rightarrow> m)"

text \<open>
  \<^verbatim>\<open>performanceMiddleware\<close>, before the handler runs (lines 178-190) and after it has settled
  (lines 196-212, without the response-time samples).
\<close>

definition middleware_enter :: "string \<Rightarrow> stats \<Rightarrow> stats" where
  "middleware_enter endpoint st =
     (let eps = (if map_of (endpoints st) endpoint = None
                 then endpoints st @ [(endpoint, \<lparr>calls = 0, endpoint_errors = 0\<rparr>)]
                 else endpoints st)
      in st\<lparr>endpoints := AList.map_entry endpoint (\<lambda>e. e\<lparr>calls := calls e + 1\<rparr>) eps,
            requests := requests st + 1\<rparr>)"

definition middleware_exit :: "string \<Rightarrow> error + json \<Rightarrow> stats \<Rightarrow> stats" where
  "middleware_exit endpoint r st =
     (case r of
        Inr result \<Rightarrow> st
      | Inl e \<Rightarrow>
          st\<lparr>endpoints :=
               AList.map_entry endpoint (\<lambda>e. e\<lparr>endpoint_errors := endpoint_errors e + 1\<rparr>)
                 (endpoints st),
             errors := errors st + 1\<rparr>)"

subsection \<open>Handling one request\<close>

text \<open>The module-level state that a handler reads and writes.\<close>

record app =
  cache :: cache
  stats :: stats
  disk :: disk

text \<open>How the upstream answers a \<^verbatim>\<open>fetch\<close>: an ok response with a JSON body, a response that is
  not ok (status and text), or a failure of \<^verbatim>\<open>fetch\<close> or of the JSON parser.\<close>

datatype upstream_reply =
    Reply_ok json
  | Reply_status nat string
  | Reply_failed string

text \<open>
  \<^verbatim>\<open>fetchWithCache\<close> up to \<^verbatim>\<open>await fetch(url)\<close> (lines 96-113): a hit returns the payload, a miss
  counts itself and waits for the upstream.
\<close>

definition fetchWithCache_begin :: "int \<Rightarrow> string \<Rightarrow> app \<Rightarrow> json option \<times> app" where
  "fetchWithCache_begin now cacheKey a =
     (case cache_lookup now cacheKey (cache a) of
        (Some payload, c) \<Rightarrow>
          (Some payload, a\<lparr>cache := c, stats := (stats a)\<lparr>cacheHits := cacheHits (stats a) + 1\<rparr>\<rparr>)
      | (None, c) \<Rightarrow>
          (None, a\<lparr>cache := c, stats := (stats a)\<lparr>cacheMisses := cacheMisses (stats a) + 1\<rparr>\<rparr>))"

text \<open>
  \<^verbatim>\<open>fetchWithCache\<close> from the upstream's answer on (lines 116-136); \<open>now\<close> is the time read at
  line 96, before the fetch.
\<close>

definition fetchWithCache_end ::
    "int \<Rightarrow> string \<Rightarrow> int \<Rightarrow> upstream_reply \<Rightarrow> app \<Rightarrow> (error + json) \<times> app" where
  "fetchWithCache_end now cacheKey cacheDuration reply a =
     (case reply of
        Reply_failed m \<Rightarrow> (Inl (Thrown m), a)
      | Reply_status status errorText \<Rightarrow> (Inl (ApiError status errorText), a)
      | Reply_ok payload \<Rightarrow>
          (let a1 = a\<lparr>cache := cache_store now cacheKey payload cacheDuration (cache a)\<rparr>;
               a2 = (if cacheMisses (stats a1) mod 100 = 0
                     then a1\<lparr>disk := saveCacheToDisk (cache a1) (disk a1)\<rparr>
                     else a1)
           in (Inr payload, a2)))"

text \<open>The body of the \<^verbatim>\<open>random\<close> handler after its \<^verbatim>\<open>fetch\<close> (lines 376-379).\<close>

definition random_end :: "upstream_reply \<Rightarrow> error + json" where
  "random_end reply =
     (case reply of
        Reply_failed m \<Rightarrow> Inl (Thrown m)
      | Reply_status status errorText \<Rightarrow> Inl (RandomApiError status)
      | Reply_ok payload \<Rightarrow> Inr payload)"

text \<open>
  The \<^verbatim>\<open>stats\<close> handler (lines 425-458). The fields formatted from floating-point numbers or
  from the wall clock (\<^verbatim>\<open>uptime\<close>, \<^verbatim>\<open>cacheRatio\<close>, \<^verbatim>\<open>averageResponseTime\<close>, the per-endpoint
  rates) are left out.
\<close>

definition stats_payload :: "stats \<Rightarrow> nat \<Rightarrow> nat \<Rightarrow> json" where
  "stats_payload st cacheSize queueLength =
     JObj [(''requests'', JNum (int (requests st))),
           (''cacheHits'', JNum (int (cacheHits st))),
           (''cacheMisses'', JNum (int (cacheMisses st))),
           (''errors'', JNum (int (errors st))),
           (''cacheSize'', JNum (int cacheSize)),
           (''endpoints'',
              JArr (map (\<lambda>(name, e). JObj [(''name'', JStr name),
                                            (''calls'', JNum (int (calls e))),
                                            (''errors'', JNum (int (endpoint_errors e)))])
                     (endpoints st))),
           (''queueLength'', JNum (int queueLength))]"

text \<open>A fetch that a request is waiting for: what the continuation needs.\<close>

record pending =
  pending_endpoint :: string
  pending_url :: string
  pending_store :: "(string \<times> int \<times> int) option"

datatype phase = Done "error + json" | Await pending

text \<open>
  \<^verbatim>\<open>handlersWithStats[endpoint](searchParams)\<close> from the call to its first suspension: for a
  handler the middleware's entry, the handler, and for a cacheable plan the lookup; for an
  inherited member its call, which the middleware does not wrap. A call of \<^verbatim>\<open>undefined\<close>
  throws a \<^verbatim>\<open>TypeError\<close>.
\<close>

definition begin_request :: "int \<Rightarrow> nat \<Rightarrow> string \<Rightarrow> params \<Rightarrow> app \<Rightarrow> phase \<times> app" where
  "begin_request now queueLength endpoint ps a =
     (case lookup_handler endpoint of
        Absent \<Rightarrow> (Done (Inl (Thrown ''TypeError'')), a)
      | Inherited name \<Rightarrow>
          (case inherited_call name ps of
             Inl m \<Rightarrow> (Done (Inl (Thrown m)), a)
           | Inr result \<Rightarrow> (Done (Inr result), a))
      | Own handler \<Rightarrow>
          (let a1 = a\<lparr>stats := middleware_enter endpoint (stats a)\<rparr>
           in case handler ps of
                Cached url cacheKey cacheDuration \<Rightarrow>
                  (case fetchWithCache_begin now cacheKey a1 of
                     (Some payload, a2) \<Rightarrow> (Done (Inr payload), a2)
                   | (None, a2) \<Rightarrow>
                       (Await \<lparr>pending_endpoint = endpoint, pending_url = url,
                                pending_store = Some (cacheKey, now, cacheDuration)\<rparr>, a2))
              | Uncached url \<Rightarrow>
                  (Await \<lparr>pending_endpoint = endpoint, pending_url = url,
                           pending_store = None\<rparr>, a1)
              | Local \<Rightarrow>
                  (Done (Inr (stats_payload (stats a1) (length (cache a1)) queueLength)), a1)))"

text \<open>The same call from the upstream's answer to its result, through the middleware's exit.\<close>

definition resume_request :: "pending \<Rightarrow> upstream_reply \<Rightarrow> app \<Rightarrow> (error + json) \<times> app" where
  "resume_request p reply a =
     (let (r, a1) = (case pending_store p of
                       Some (cacheKey, now, cacheDuration) \<Rightarrow>
                         fetchWithCache_end now cacheKey cacheDuration reply a
                     | None \<Rightarrow> (random_end reply, a))
      in (r, a1\<lparr>stats := middleware_exit (pending_endpoint p) r (stats a1)\<rparr>))"

subsection \<open>The response envelope\<close>

text \<open>How the promise returned by \<^verbatim>\<open>enqueueRequest\<close> settles (lines 151-156).\<close>

datatype promise = Resolved json | Rejected error


text \<open>Lines 546-552; \<open>isoNow\<close> is \<^verbatim>\<open>new Date().toISOString()\<close>.\<close>

definition enhancedData :: "string \<Rightarrow> string \<Rightarrow> json \<Rightarrow> (string \<times> json) list" where
  "enhancedData endpoint isoNow jikanData =
     spread [(''source'', JStr ''Jikan API Proxy''),
             (''cached'', JBool (endpoint \<noteq> ''random'' \<and> endpoint \<noteq> ''stats'')),
             (''timestamp'', JStr isoNow),
             (''endpoint'', JStr endpoint)]
       jikanData"

datatype http_response =
    Ok200 "(string \<times> json) list"
  | NotFound404 "(string \<times> json) list"
  | Error500 "(string \<times> json) list"
  | Documentation
  | Preflight

text \<open>The \<^verbatim>\<open>try\<close> block of the server once the promise has settled (lines 539-570).\<close>

definition respond :: "string \<Rightarrow> string \<Rightarrow> promise \<Rightarrow> http_response" where
  "respond endpoint isoNow p =
     (case p of
        Resolved jikanData \<Rightarrow> Ok200 (enhancedData endpoint isoNow jikanData)
      | Rejected e \<Rightarrow>
          Error500 [(''error'', JStr ''Gagal mengambil data''),
                    (''message'',
                       JStr (if error_message e = [] then ''Unknown error'' else error_message e)),
                    (''endpoint'', JStr endpoint)])"

subsection \<open>The dispatcher and the event loop\<close>

definition MAX_REQUESTS_PER_SECOND :: nat where
  "MAX_REQUESTS_PER_SECOND = 4"

text \<open>An entry of \<^verbatim>\<open>requestQueue\<close>: the closure built at line 541 and the promise that waits for
  it, named by the number of the submission.\<close>

record task =
  task_id :: nat
  task_endpoint :: string
  task_params :: params

text \<open>
  The state of the process between two turns of the event loop. \<open>inflight\<close> holds the calls of
  the running batch that wait for the upstream (what \<^verbatim>\<open>Promise.all\<close> still waits for) and
  \<open>cooldown\<close> the due time of the armed \<^verbatim>\<open>setTimeout\<close>. The last six fields are history:
  the number of calls of \<^verbatim>\<open>enqueueRequest\<close>, each call of a task's \<^verbatim>\<open>fn\<close> with its time, each
  result of an \<^verbatim>\<open>fn\<close> in the order of settling, the URLs fetched, the due time of every
  cooldown armed, and each answer of the upstream with the task and the fetch it answered.
\<close>

record world =
  clock :: int
  app :: app
  requestQueue :: "task list"
  processingQueue :: bool
  inflight :: "(nat \<times> pending) list"
  cooldown :: "int option"
  submitted :: nat
  started :: "(nat \<times> int) list"
  settled :: "(nat \<times> (error + json)) list"
  fetched :: "string list"
  cooldowns :: "int list"
  answered :: "(nat \<times> pending \<times> upstream_reply) list"

text \<open>The wrapper of lines 150-157 once \<^verbatim>\<open>fn()\<close> has settled with \<open>r\<close>: the promise of the task
  settles as \<^term>\<open>deliver r\<close>.\<close>

definition settle :: "nat \<Rightarrow> error + json \<Rightarrow> world \<Rightarrow> world" where
  "settle i r w = w\<lparr>settled := settled w @ [(i, r)]\<rparr>"

text \<open>One element of \<^verbatim>\<open>batch.map(...)\<close>: the call of \<^verbatim>\<open>fn()\<close>, which runs to its first suspension.\<close>

definition start_task :: "task \<Rightarrow> world \<Rightarrow> world" where
  "start_task t w =
     (let w1 = w\<lparr>started := started w @ [(task_id t, clock w)]\<rparr>
      in case begin_request (clock w) (length (requestQueue w)) (task_endpoint t)
                (task_params t) (app w) of
           (Done r, a) \<Rightarrow> settle (task_id t) r (w1\<lparr>app := a\<rparr>)
         | (Await p, a) \<Rightarrow>
             w1\<lparr>app := a, inflight := inflight w1 @ [(task_id t, p)],
                fetched := fetched w1 @ [pending_url p]\<rparr>)"

text \<open>Line 162, reached when \<^verbatim>\<open>Promise.all\<close> has settled: the timer of one second.\<close>

definition arm_cooldown :: "world \<Rightarrow> world" where
  "arm_cooldown w =
     w\<lparr>cooldown := Some (clock w + 1000), cooldowns := cooldowns w @ [clock w + 1000]\<rparr>"

text \<open>Lines 147-157 of \<^verbatim>\<open>processQueue\<close>: the flag is set, the batch leaves the queue and each
  of its tasks is called.\<close>

definition start_batch :: "world \<Rightarrow> world" where
  "start_batch w =
     fold start_task (take MAX_REQUESTS_PER_SECOND (requestQueue w))
       (w\<lparr>processingQueue := True,
          requestQueue := drop MAX_REQUESTS_PER_SECOND (requestQueue w)\<rparr>)"

text \<open>\<^verbatim>\<open>processQueue\<close> up to its first suspension (lines 145-162). When no call of the batch
  waits for the upstream, \<^verbatim>\<open>Promise.all\<close> settles in the same turn and the timer is armed.\<close>

definition processQueue :: "world \<Rightarrow> world" where
  "processQueue w =
     (if processingQueue w \<or> requestQueue w = [] then w
      else
        (let w2 = start_batch w
         in if inflight w2 = [] then arm_cooldown w2 else w2))"

definition enqueueRequest :: "string \<Rightarrow> params \<Rightarrow> world \<Rightarrow> world" where
  "enqueueRequest endpoint ps w =
     processQueue
       (w\<lparr>requestQueue :=
             requestQueue w
               @ [\<lparr>task_id = submitted w, task_endpoint = endpoint, task_params = ps\<rparr>],
           submitted := submitted w + 1\<rparr>)"

text \<open>
  The server's \<^verbatim>\<open>fetch(req)\<close> up to the \<^verbatim>\<open>try\<close> block (lines 472-537). \<open>path_parts\<close> is
  \<^verbatim>\<open>path.split('/').filter(Boolean)\<close> of the lower-cased path. A request is answered at once
  or goes to \<^verbatim>\<open>enqueueRequest\<close>.
\<close>

record request =
  http_method :: string
  path_parts :: "string list"
  searchParams :: params

definition route :: "request \<Rightarrow> http_response + string \<times> params" where
  "route req =
     (if http_method req = ''OPTIONS'' then Inl Preflight
      else case path_parts req of
             p0 # endpoint # rest \<Rightarrow>
               if p0 \<noteq> ''api'' then Inl Documentation
               else (case lookup_handler endpoint of
                       Absent \<Rightarrow>
                         Inl (NotFound404
                               [(''error'', JStr ''Endpoint tidak ditemukan''),
                                (''available_endpoints'',
                                   JArr (map (\<lambda>h. JStr (fst h)) handlers))])
                     | _ \<Rightarrow> Inr (endpoint, searchParams req))
           | _ \<Rightarrow> Inl Documentation)"

definition serve :: "request \<Rightarrow> world \<Rightarrow> world" where
  "serve req w =
     (case route req of
        Inl response \<Rightarrow> w
      | Inr (endpoint, ps) \<Rightarrow> enqueueRequest endpoint ps w)"

text \<open>
  What the event loop runs: an inbound request, the upstream's answer to the fetch of a task,
  the cooldown timer, the hourly cleanup and the half-hourly save. An event carries the time
  elapsed since the event before it. An answer for a task that waits for none and a timer that
  is not due change nothing.
\<close>

datatype action =
    Request request
  | Reply nat upstream_reply
  | Timer
  | Sweep
  | Flush

fun act :: "action \<Rightarrow> world \<Rightarrow> world" where
  "act (Request req) w = serve req w"
| "act (Reply i reply) w =
     (case map_of (inflight w) i of
        None \<Rightarrow> w
      | Some p \<Rightarrow>
          (let (r, a) = resume_request p reply (app w);
               w1 = settle i r
                      (w\<lparr>app := a, inflight := AList.delete i (inflight w),
                         answered := answered w @ [(i, p, reply)]\<rparr>)
           in if inflight w1 = [] then arm_cooldown w1 else w1))"
| "act Timer w =
     (case cooldown w of
        None \<Rightarrow> w
      | Some due \<Rightarrow>
          if due \<le> clock w
          then processQueue (w\<lparr>cooldown := None, processingQueue := False\<rparr>)
          else w)"
| "act Sweep w = w\<lparr>app := (app w)\<lparr>cache := fst (cleanup (clock w) (cache (app w)))\<rparr>\<rparr>"
| "act Flush w = w\<lparr>app := (app w)\<lparr>disk := saveCacheToDisk (cache (app w)) (disk (app w))\<rparr>\<rparr>"

definition step :: "nat \<times> action \<Rightarrow> world \<Rightarrow> world" where
  "step ev w = act (snd ev) (w\<lparr>clock := clock w + int (fst ev)\<rparr>)"

definition run :: "(nat \<times> action) list \<Rightarrow> world \<Rightarrow> world" where
  "run evs w = fold step evs w"

text \<open>The process after start-up at time \<open>t0\<close>, with the state \<open>a\<close> that loading left.\<close>

definition boot :: "int \<Rightarrow> app \<Rightarrow> world" where
  "boot t0 a =
     \<lparr>clock = t0, app = a, requestQueue = [], processingQueue = False, inflight = [],
      cooldown = None, submitted = 0, started = [], settled = [], fetched = [],
      cooldowns = [], answered = []\<rparr>"

definition app0 :: app where
  "app0 =
     \<lparr>cache = [],
      stats = \<lparr>requests = 0, cacheHits = 0, cacheMisses = 0, errors = 0, endpoints = []\<rparr>,
      disk = \<lparr>files = (\<lambda>p. None), unwritable = (\<lambda>p. False)\<rparr>\<rparr>"




subsection \<open>Invariants of the event loop\<close>

text \<open>
  Submissions are numbered in order; the queue holds the submissions not yet started, in
  order; every started submission is either waiting for the upstream or settled, never both
  and never twice.
\<close>

definition ids_ok :: "world \<Rightarrow> bool" where
  "ids_ok w \<longleftrightarrow>
     map task_id (requestQueue w) = [length (started w)..<submitted w] \<and>
     length (started w) \<le> submitted w \<and>
     map fst (started w) = [0..<length (started w)] \<and>
     distinct (map fst (inflight w) @ map fst (settled w)) \<and>
     set (map fst (inflight w) @ map fst (settled w)) = {0..<length (started w)}"

text \<open>
  While \<^verbatim>\<open>processingQueue\<close> is set, either a call of the batch is still waiting or the timer is
  armed; while it is clear, nothing is queued, waiting or armed.
\<close>

definition status_ok :: "world \<Rightarrow> bool" where
  "status_ok w \<longleftrightarrow>
     (if processingQueue w then (inflight w = []) = (cooldown w \<noteq> None)
      else requestQueue w = [] \<and> inflight w = [] \<and> cooldown w = None)"

text \<open>
  Starts lie in the past and in order of time; the timer is due, and the flag is cleared, no
  earlier than one second after every start; no window of one second holds more than
  \<^const>\<open>MAX_REQUESTS_PER_SECOND\<close> starts.
\<close>

definition timing_ok :: "world \<Rightarrow> bool" where
  "timing_ok w \<longleftrightarrow>
     (\<forall>e \<in> set (started w). snd e \<le> clock w) \<and>
     (\<not> processingQueue w \<longrightarrow> (\<forall>e \<in> set (started w). snd e + 1000 \<le> clock w)) \<and>
     (\<forall>due. cooldown w = Some due \<longrightarrow> (\<forall>e \<in> set (started w). snd e + 1000 \<le> due)) \<and>
     sorted (map snd (started w)) \<and>
     (\<forall>s. length (filter (\<lambda>e. s \<le> snd e \<and> snd e < s + 1000) (started w))
            \<le> MAX_REQUESTS_PER_SECOND)"

text \<open>
  The first cooldown is armed one second or more after the first start, and every
  submission from number \<^const>\<open>MAX_REQUESTS_PER_SECOND\<close> on starts when it is over.
\<close>

definition cooldowns_ok :: "world \<Rightarrow> bool" where
  "cooldowns_ok w \<longleftrightarrow>
     (\<forall>c \<in> set (cooldowns w). c \<le> clock w + 1000) \<and>
     (\<forall>due. cooldown w = Some due \<longrightarrow> cooldowns w \<noteq> [] \<and> hd (cooldowns w) \<le> due) \<and>
     (\<not> processingQueue w \<and> started w \<noteq> [] \<longrightarrow>
        cooldowns w \<noteq> [] \<and> hd (cooldowns w) \<le> clock w) \<and>
     (\<forall>e \<in> set (started w). MAX_REQUESTS_PER_SECOND \<le> fst e \<longrightarrow>
        cooldowns w \<noteq> [] \<and> hd (cooldowns w) \<le> snd e) \<and>
     (cooldowns w \<noteq> [] \<longrightarrow>
        started w \<noteq> [] \<and> snd (hd (started w)) + 1000 \<le> hd (cooldowns w))"



definition dispatcher_ok :: "world \<Rightarrow> bool" where
  "dispatcher_ok w \<longleftrightarrow> ids_ok w \<and> status_ok w \<and> timing_ok w \<and> cooldowns_ok w"

subsection \<open>Example runs\<close>

definition anime_by_id :: "string \<Rightarrow> request" where
  "anime_by_id ident =
     \<lparr>http_method = ''GET'', path_parts = [''api'', ''anime''], searchParams = [(''id'', ident)]\<rparr>"

text \<open>Two quick requests for \<^verbatim>\<open>/api/anime?id=5\<close>: the second arrives one millisecond after the
  upstream has answered the first.\<close>

definition twice :: "(nat \<times> action) list" where
  "twice =
     [(0, Request (anime_by_id ''5'')),
      (5, Reply 0 (Reply_ok (JObj [(''data'', JNum 5)]))),
      (1, Request (anime_by_id ''5'')),
      (1000, Timer)]"

text \<open>Six requests in the same millisecond, the upstream's answer to the first after 50 ms,
  and the timer one second later.\<close>

definition burst :: "(nat \<times> action) list" where
  "burst =
     [(0, Request (anime_by_id ''1'')), (0, Request (anime_by_id ''2'')),
      (0, Request (anime_by_id ''3'')), (0, Request (anime_by_id ''4'')),
      (0, Request (anime_by_id ''5'')), (0, Request (anime_by_id ''6'')),
      (50, Reply 0 (Reply_ok JNull)),
      (1000, Timer)]"

text \<open>Requests for the two inherited names that survive the lower-casing of the path.\<close>

definition inherited :: "(nat \<times> action) list" where
  "inherited =
     [(0, Request \<lparr>http_method = ''GET'', path_parts = [''api'', ''constructor''],
                   searchParams = []\<rparr>),
      (0, Request \<lparr>http_method = ''GET'', path_parts = [''api'', ''__proto__''],
                   searchParams = []\<rparr>),
      (1000, Timer)]"



text \<open>The requests of a run that reach \<^verbatim>\<open>enqueueRequest\<close>.\<close>

definition dispatched :: "nat \<times> action \<Rightarrow> bool" where
  "dispatched ev =
     (case snd ev of
        Request req \<Rightarrow> (case route req of Inl response \<Rightarrow> False | Inr target \<Rightarrow> True)
      | _ \<Rightarrow> False)"

section \<open>Properties\<close>

subsection \<open>The cache\<close>

lemma fetchWithCache_end_cache:
  "cache (snd (fetchWithCache_end now k ttl (Reply_ok v) a)) = cache_store now k v ttl (cache a)"
  by (simp add: fetchWithCache_end_def Let_def)

lemma lookup_aged:
  "cache_lookup (now + age) k (cache_store now k v ttl c) =
     (if age < ttl then (Some v, cache_store now k v ttl c) else (None, AList.delete k c))"
  by (simp add: cache_lookup_def cache_store_def update_conv' delete_update_same)

lemma lookup_stale:
  "ttl \<le> t \<Longrightarrow> cache_lookup (now + t) k (cache_store now k v ttl c) = (None, AList.delete k c)"
  by (simp add: cache_lookup_def cache_store_def update_conv' delete_update_same)

text \<open>
  C5 (amended). \<^verbatim>\<open>fetchWithCache\<close> stamps the entry with the time read before the fetch and
  stores it when the upstream has answered, \<open>latency\<close> milliseconds later. A call for the same
  key at the instant of the store (no time elapsed since the store) is a hit that returns the
  stored value exactly when the latency is less than the duration.
\<close>

theorem lookup_after_store:
  "fst (fetchWithCache_begin (now + int latency) k
          (snd (fetchWithCache_end now k ttl (Reply_ok v) a)))
     = (if int latency < ttl then Some v else None)"
  by (simp add: fetchWithCache_begin_def fetchWithCache_end_cache lookup_aged)

theorem lookup_after_store_witness:
  "fst (fetchWithCache_begin (1000 + int 50) ''anime_5''
          (snd (fetchWithCache_end 1000 ''anime_5'' 3600000 (Reply_ok (JNum 5)) app0)))
     = Some (JNum 5)"
  using lookup_after_store [of 1000 50 "''anime_5''" 3600000 "JNum 5" app0] by simp

text \<open>
  C5 as stated fails: a value stored with duration 10 after a fetch of 50 ms is absent at the
  instant of the store; so is a value stored with duration 0 after a fetch that took no time.
\<close>

theorem lookup_after_slow_fetch:
  "fst (fetchWithCache_begin (0 + int 50) ''k''
          (snd (fetchWithCache_end 0 ''k'' 10 (Reply_ok (JNum 1)) app0))) = None \<and>
   fst (fetchWithCache_begin (7 + int 0) ''k''
          (snd (fetchWithCache_end 7 ''k'' 0 (Reply_ok (JNum 1)) app0))) = None"
  by (simp add: fetchWithCache_begin_def fetchWithCache_end_cache cache_lookup_def
      cache_store_def app0_def)

text \<open>
  C6. A call of \<^verbatim>\<open>fetchWithCache\<close> for a key \<open>t\<close> milliseconds after the key was stored with
  duration \<open>ttl \<le> t\<close> finds nothing, and when it reaches its \<^verbatim>\<open>fetch\<close> the cache has no entry
  for the key.
\<close>

theorem lookup_expired_removes:
  "ttl \<le> t \<Longrightarrow>
   fst (fetchWithCache_begin (now + t) k (snd (fetchWithCache_end now k ttl (Reply_ok v) a)))
     = None \<and>
   map_of (cache (snd (fetchWithCache_begin (now + t) k
                        (snd (fetchWithCache_end now k ttl (Reply_ok v) a))))) k = None"
  by (simp add: fetchWithCache_begin_def fetchWithCache_end_cache lookup_stale delete_conv')

theorem lookup_expired_removes_witness:
  "fst (fetchWithCache_begin (1000 + 10) ''k''
          (snd (fetchWithCache_end 1000 ''k'' 10 (Reply_ok (JNum 1)) app0))) = None \<and>
   map_of (cache (snd (fetchWithCache_begin (1000 + 10) ''k''
                        (snd (fetchWithCache_end 1000 ''k'' 10 (Reply_ok (JNum 1)) app0)))))
     ''k'' = None"
  using lookup_expired_removes [of 10 10 1000 "''k''" "JNum 1" app0] by simp

text \<open>
  What the hourly cleanup does to a cache with distinct keys (every \<^verbatim>\<open>Map\<close> is one): it keeps
  the entries of age up to and including the duration and counts the others.
\<close>

lemma delete_middle:
  assumes "distinct (map fst (pre @ (k, v) # xs))"
  shows "AList.delete k (pre @ (k, v) # xs) = pre @ xs"
proof -
  from assms have "\<forall>kv \<in> set pre. fst kv \<noteq> k" and "\<forall>kv \<in> set xs. fst kv \<noteq> k"
    by auto
  then have "filter (\<lambda>(k', _). k \<noteq> k') pre = pre" and "filter (\<lambda>(k', _). k \<noteq> k') xs = xs"
    by (auto simp: filter_id_conv)
  then show ?thesis by (simp add: AList.delete_eq)
qed

lemma cleanup_fold:
  assumes "distinct (map fst (pre @ xs))"
  shows "fold (cleanup_entry now) xs (pre @ xs, n) =
     (pre @ filter (\<lambda>kv. \<not> now - timestamp (snd kv) > duration (snd kv)) xs,
      n + length (filter (\<lambda>kv. now - timestamp (snd kv) > duration (snd kv)) xs))"
  using assms
proof (induction xs arbitrary: pre n)
  case Nil
  then show ?case by simp
next
  case (Cons x xs)
  obtain k v where x: "x = (k, v)" by (cases x)
  show ?case
  proof (cases "now - timestamp v > duration v")
    case True
    from Cons.prems have "AList.delete k (pre @ (k, v) # xs) = pre @ xs"
      unfolding x by (rule delete_middle)
    then have "cleanup_entry now x (pre @ x # xs, n) = (pre @ xs, Suc n)"
      using True by (simp add: cleanup_entry_def x)
    moreover from Cons.prems have "distinct (map fst (pre @ xs))" by simp
    ultimately show ?thesis using Cons.IH [of pre "Suc n"] True by (simp add: x)
  next
    case False
    then have "cleanup_entry now x (pre @ x # xs, n) = ((pre @ [x]) @ xs, n)"
      by (simp add: cleanup_entry_def x)
    moreover from Cons.prems have "distinct (map fst ((pre @ [x]) @ xs))" by simp
    ultimately show ?thesis using Cons.IH [of "pre @ [x]" n] False by (simp add: x)
  qed
qed

lemma cleanup_removes_older:
  assumes "distinct (map fst c)"
  shows "cleanup now c =
     (filter (\<lambda>kv. now - timestamp (snd kv) \<le> duration (snd kv)) c,
      length (filter (\<lambda>kv. now - timestamp (snd kv) > duration (snd kv)) c))"
  using cleanup_fold [of "[]" c now 0] assms by (simp add: cleanup_def not_less)

text \<open>
  C7 at the boundary. An entry whose age equals its duration is expired for the lookup, which
  deletes it, but the hourly cleanup, which tests \<^verbatim>\<open>now - timestamp > duration\<close>, keeps it and
  counts no removal.
\<close>

theorem cleanup_keeps_entry_at_ttl:
  "cleanup 10 [(''k'', \<lparr>timestamp = 0, duration = 10, data = JNull\<rparr>)]
     = ([(''k'', \<lparr>timestamp = 0, duration = 10, data = JNull\<rparr>)], 0) \<and>
   cache_lookup 10 ''k'' [(''k'', \<lparr>timestamp = 0, duration = 10, data = JNull\<rparr>)] = (None, [])"
  by (simp add: cleanup_def cleanup_entry_def cache_lookup_def)

subsection \<open>Saving the cache\<close>

lemma write_entries_unwritable: "unwritable (write_entries c d) = unwritable d"
  by (induction c d rule: write_entries.induct) (auto simp: writeFileSync_def)

lemma write_entries_stops:
  "\<forall>kv \<in> set pre. \<not> unwritable d (CacheFile (fst kv)) \<Longrightarrow> unwritable d (CacheFile key)
   \<Longrightarrow> write_entries (pre @ (key, v) # post) d = write_entries pre d"
proof (induction pre arbitrary: d)
  case Nil
  then show ?case by (simp add: writeFileSync_def)
next
  case (Cons kv pre)
  obtain k e where kv: "kv = (k, e)" by (cases kv)
  from Cons.prems have w: "\<not> unwritable d (CacheFile k)" by (simp add: kv)
  let ?d = "d\<lparr>files := (files d)(CacheFile k \<mapsto> ItemContent e)\<rparr>"
  have "write_entries (pre @ (key, v) # post) ?d = write_entries pre ?d"
    using Cons.prems by (intro Cons.IH) simp_all
  then show ?case using w by (simp add: kv writeFileSync_def)
qed

lemma write_entries_files:
  "\<forall>kv \<in> set pre. \<not> unwritable d (CacheFile (fst kv)) \<Longrightarrow>
   files (write_entries pre d) (CacheFile k) =
     (case map_of (rev pre) k of Some e \<Rightarrow> Some (ItemContent e) | None \<Rightarrow> files d (CacheFile k))"
proof (induction pre arbitrary: d)
  case Nil
  then show ?case by simp
next
  case (Cons kv pre)
  obtain k' e where kv: "kv = (k', e)" by (cases kv)
  from Cons.prems have w: "\<not> unwritable d (CacheFile k')" by (simp add: kv)
  let ?d = "d\<lparr>files := (files d)(CacheFile k' \<mapsto> ItemContent e)\<rparr>"
  have "files (write_entries pre ?d) (CacheFile k) =
     (case map_of (rev pre) k of Some e \<Rightarrow> Some (ItemContent e) | None \<Rightarrow> files ?d (CacheFile k))"
    using Cons.prems by (intro Cons.IH) simp_all
  then show ?case using w
    by (auto simp: kv writeFileSync_def map_add_def split: option.splits)
qed

text \<open>
  C8 (amended). When the index can be written, the entries \<open>pre\<close> can be written and the
  entry after them cannot, \<^verbatim>\<open>saveCacheToDisk\<close> writes the files of \<open>pre\<close> and no other entry's
  file: the file of the failing entry and the files of all entries after it stay as they
  were.
\<close>

theorem save_stops_at_first_failure:
  assumes "\<not> unwritable d CacheIndex"
    and "\<forall>kv \<in> set pre. \<not> unwritable d (CacheFile (fst kv))"
    and "unwritable d (CacheFile key)"
  shows "files (saveCacheToDisk (pre @ (key, v) # post) d) (CacheFile k) =
     (case map_of (rev pre) k of
        Some e \<Rightarrow> Some (ItemContent e)
      | None \<Rightarrow> files d (CacheFile k))"
proof -
  let ?d = "d\<lparr>files := (files d)(CacheIndex \<mapsto> IndexContent (map fst (pre @ (key, v) # post)))\<rparr>"
  have "saveCacheToDisk (pre @ (key, v) # post) d = write_entries (pre @ (key, v) # post) ?d"
    using assms(1) by (simp add: saveCacheToDisk_def writeFileSync_def)
  also have "\<dots> = write_entries pre ?d"
    using assms(2,3) by (intro write_entries_stops) simp_all
  finally show ?thesis
    using assms(2) write_entries_files [of pre ?d k] by (simp split: option.splits)
qed

theorem save_stops_at_first_failure_witness:
  "files (saveCacheToDisk
            ([(''a'', \<lparr>timestamp = 0, duration = 1, data = JNull\<rparr>)]
               @ (''b'', \<lparr>timestamp = 0, duration = 2, data = JNull\<rparr>)
               # [(''c'', \<lparr>timestamp = 0, duration = 3, data = JNull\<rparr>)])
            \<lparr>files = (\<lambda>p. None), unwritable = (\<lambda>p. p = CacheFile ''b'')\<rparr>)
     (CacheFile ''a'') = Some (ItemContent \<lparr>timestamp = 0, duration = 1, data = JNull\<rparr>) \<and>
   files (saveCacheToDisk
            ([(''a'', \<lparr>timestamp = 0, duration = 1, data = JNull\<rparr>)]
               @ (''b'', \<lparr>timestamp = 0, duration = 2, data = JNull\<rparr>)
               # [(''c'', \<lparr>timestamp = 0, duration = 3, data = JNull\<rparr>)])
            \<lparr>files = (\<lambda>p. None), unwritable = (\<lambda>p. p = CacheFile ''b'')\<rparr>)
     (CacheFile ''c'') = None"
  using save_stops_at_first_failure
    [of "\<lparr>files = (\<lambda>p. None), unwritable = (\<lambda>p. p = CacheFile ''b'')\<rparr>"
        "[(''a'', \<lparr>timestamp = 0, duration = 1, data = JNull\<rparr>)]" "''b''"
        "\<lparr>timestamp = 0, duration = 2, data = JNull\<rparr>"
        "[(''c'', \<lparr>timestamp = 0, duration = 3, data = JNull\<rparr>)]" "''a''"]
    save_stops_at_first_failure
    [of "\<lparr>files = (\<lambda>p. None), unwritable = (\<lambda>p. p = CacheFile ''b'')\<rparr>"
        "[(''a'', \<lparr>timestamp = 0, duration = 1, data = JNull\<rparr>)]" "''b''"
        "\<lparr>timestamp = 0, duration = 2, data = JNull\<rparr>"
        "[(''c'', \<lparr>timestamp = 0, duration = 3, data = JNull\<rparr>)]" "''c''"]
  by simp

text \<open>
  C8 as stated fails: with two entries and a disk that refuses the file of the first, the
  file of the second is not written.
\<close>

theorem save_skips_entries_after_failure:
  "files (saveCacheToDisk
            [(''a'', \<lparr>timestamp = 0, duration = 1, data = JNull\<rparr>),
             (''b'', \<lparr>timestamp = 0, duration = 1, data = JNull\<rparr>)]
            \<lparr>files = (\<lambda>p. None), unwritable = (\<lambda>p. p = CacheFile ''a'')\<rparr>)
     (CacheFile ''b'') = None"
  by (simp add: saveCacheToDisk_def writeFileSync_def)

subsection \<open>Cache keys\<close>

lemma hex_digit_inj: "hex_digit a = hex_digit b \<Longrightarrow> a mod 16 = b mod 16"
proof -
  have d: "distinct ''0123456789ABCDEF''" by simp
  have l: "length ''0123456789ABCDEF'' = 16" by simp
  assume "hex_digit a = hex_digit b"
  then have "''0123456789ABCDEF'' ! (a mod 16) = ''0123456789ABCDEF'' ! (b mod 16)"
    by (simp only: hex_digit_def)
  moreover have "a mod 16 < length ''0123456789ABCDEF''" "b mod 16 < length ''0123456789ABCDEF''"
    by simp_all
  ultimately show ?thesis
    using d nth_eq_iff_index_eq by blast
qed

lemma hex_digit_set: "hex_digit n \<in> set ''0123456789ABCDEF''"
proof -
  have "n mod 16 < length ''0123456789ABCDEF''" by simp
  then show ?thesis unfolding hex_digit_def by (rule nth_mem)
qed

lemma hex_digit_neq: "CHR ''='' \<noteq> hex_digit n" "CHR ''&'' \<noteq> hex_digit n"
  using hex_digit_set [of n] by auto

lemma of_char_split: "(of_char (c::char) :: nat) = 16 * (of_char c div 16) + of_char c mod 16"
  by simp

lemma of_char_div_lt: "(of_char (c::char) :: nat) div 16 < 16"
proof -
  have "(of_char c :: nat) < 16 * 16" using nat_of_char_less_256 [of c] by simp
  then show ?thesis by (rule less_mult_imp_div_less)
qed

lemma encode_byte_prefix_free:
  "encode_byte a @ r = encode_byte b @ r' \<Longrightarrow> a = b \<and> r = r'"
proof -
  assume eq: "encode_byte a @ r = encode_byte b @ r'"
  have pct: "\<not> unreserved (CHR ''%'')" and pl: "\<not> unreserved (CHR ''+'')"
    by (simp_all add: unreserved_def)
  consider (uu) "unreserved a" "unreserved b"
    | (ux) "unreserved a" "\<not> unreserved b"
    | (xu) "\<not> unreserved a" "unreserved b"
    | (xx) "\<not> unreserved a" "\<not> unreserved b" by blast
  then show ?thesis
  proof cases
    case uu then show ?thesis using eq by (simp add: encode_byte_def)
  next
    case ux then show ?thesis using eq pct pl by (auto simp: encode_byte_def split: if_splits)
  next
    case xu then show ?thesis using eq pct pl by (auto simp: encode_byte_def split: if_splits)
  next
    case xx
    show ?thesis
    proof (cases "a = CHR '' ''")
      case True then show ?thesis using eq xx by (auto simp: encode_byte_def split: if_splits)
    next
      case False
      note na = this
      show ?thesis
      proof (cases "b = CHR '' ''")
        case True then show ?thesis using eq xx na by (auto simp: encode_byte_def split: if_splits)
      next
        case False
        from eq xx na False have h: "hex_digit (of_char a div 16) = hex_digit (of_char b div 16)"
          "hex_digit (of_char a mod 16) = hex_digit (of_char b mod 16)" and rr: "r = r'"
          by (simp_all add: encode_byte_def)
        from hex_digit_inj [OF h(1)]
        have "(of_char a :: nat) div 16 = of_char b div 16"
          using of_char_div_lt [of a] of_char_div_lt [of b] by simp
        moreover from hex_digit_inj [OF h(2)]
        have "(of_char a :: nat) mod 16 = of_char b mod 16" by simp
        ultimately have "(of_char a :: nat) = of_char b"
          using of_char_split [of a] of_char_split [of b] by simp
        then show ?thesis using rr by simp
      qed
    qed
  qed
qed

lemma urlencode_inj: "urlencode a = urlencode b \<Longrightarrow> a = b"
proof (induction a arbitrary: b)
  case Nil
  then show ?case by (cases b) (auto simp: urlencode_def encode_byte_def split: if_splits)
next
  case (Cons x xs)
  then show ?case
  proof (cases b)
    case Nil
    with Cons.prems show ?thesis by (auto simp: urlencode_def encode_byte_def split: if_splits)
  next
    case (Cons y ys)
    with Cons.prems have "encode_byte x @ urlencode xs = encode_byte y @ urlencode ys"
      by (simp add: urlencode_def)
    then have "x = y \<and> urlencode xs = urlencode ys" by (rule encode_byte_prefix_free)
    with Cons.IH Cons show ?thesis by simp
  qed
qed

lemma unreserved_not_sep: "\<not> unreserved (CHR ''='')" "\<not> unreserved (CHR ''&'')"
  by (simp_all add: unreserved_def)

lemma encode_byte_no_sep: "CHR ''='' \<notin> set (encode_byte c)" "CHR ''&'' \<notin> set (encode_byte c)"
proof -
  show "CHR ''='' \<notin> set (encode_byte c)"
  proof (cases "unreserved c")
    case True
    then have "c \<noteq> CHR ''=''" using unreserved_not_sep(1) by blast
    with True show ?thesis by (simp add: encode_byte_def)
  next
    case False
    then show ?thesis using hex_digit_neq(1) by (simp add: encode_byte_def)
  qed
  show "CHR ''&'' \<notin> set (encode_byte c)"
  proof (cases "unreserved c")
    case True
    then have "c \<noteq> CHR ''&''" using unreserved_not_sep(2) by blast
    with True show ?thesis by (simp add: encode_byte_def)
  next
    case False
    then show ?thesis using hex_digit_neq(2) by (simp add: encode_byte_def)
  qed
qed

lemma urlencode_no_sep: "CHR ''='' \<notin> set (urlencode s)" "CHR ''&'' \<notin> set (urlencode s)"
  using encode_byte_no_sep by (simp_all add: urlencode_def)

lemma split_at_sep:
  "c \<notin> set xs \<Longrightarrow> c \<notin> set ys \<Longrightarrow> xs @ c # r = ys @ c # r' \<Longrightarrow> xs = ys \<and> r = r'"
proof (induction xs arbitrary: ys)
  case Nil
  then show ?case by (cases ys) auto
next
  case (Cons x xs)
  then show ?case by (cases ys) auto
qed

lemma toString_inj: "toString ps = toString qs \<Longrightarrow> ps = qs"
proof (induction ps arbitrary: qs rule: toString.induct)
  case 1
  then show ?case by (cases qs rule: toString.cases) auto
next
  case (2 k v)
  show ?case
  proof (cases qs rule: toString.cases)
    case 1
    with 2 show ?thesis by simp
  next
    case (2 k' v')
    with "2.prems" have "urlencode k @ CHR ''='' # urlencode v = urlencode k' @ CHR ''='' # urlencode v'"
      by simp
    then have "urlencode k = urlencode k' \<and> urlencode v = urlencode v'"
      by (rule split_at_sep [OF urlencode_no_sep(1) urlencode_no_sep(1)])
    with 2 show ?thesis by (simp add: urlencode_inj)
  next
    case (3 k' v' p ps)
    with "2.prems" have "urlencode k @ CHR ''='' # urlencode v
        = urlencode k' @ CHR ''='' # (urlencode v' @ CHR ''&'' # toString (p # ps))"
      by simp
    then have "urlencode v = urlencode v' @ CHR ''&'' # toString (p # ps)"
      using split_at_sep [OF urlencode_no_sep(1) urlencode_no_sep(1)] by simp
    then have "CHR ''&'' \<in> set (urlencode v)" by simp
    then show ?thesis using urlencode_no_sep(2) by simp
  qed
next
  case (3 k v p ps)
  show ?case
  proof (cases qs rule: toString.cases)
    case 1
    with "3.prems" show ?thesis by simp
  next
    case (2 k' v')
    with "3.prems" have "urlencode k' @ CHR ''='' # urlencode v'
        = urlencode k @ CHR ''='' # (urlencode v @ CHR ''&'' # toString (p # ps))"
      by simp
    then have "urlencode v' = urlencode v @ CHR ''&'' # toString (p # ps)"
      using split_at_sep [OF urlencode_no_sep(1) urlencode_no_sep(1)] by simp
    then have "CHR ''&'' \<in> set (urlencode v')" by simp
    then show ?thesis using urlencode_no_sep(2) by simp
  next
    case (3 k' v' q qs')
    with "3.prems" have e: "urlencode k @ CHR ''='' # (urlencode v @ CHR ''&'' # toString (p # ps))
        = urlencode k' @ CHR ''='' # (urlencode v' @ CHR ''&'' # toString (q # qs'))"
      by simp
    then have "urlencode k = urlencode k' \<and>
        urlencode v @ CHR ''&'' # toString (p # ps) = urlencode v' @ CHR ''&'' # toString (q # qs')"
      by (rule split_at_sep [OF urlencode_no_sep(1) urlencode_no_sep(1)])
    then have k: "urlencode k = urlencode k'"
      and r: "urlencode v @ CHR ''&'' # toString (p # ps) = urlencode v' @ CHR ''&'' # toString (q # qs')"
      by simp_all
    from r have "urlencode v = urlencode v' \<and> toString (p # ps) = toString (q # qs')"
      by (rule split_at_sep [OF urlencode_no_sep(2) urlencode_no_sep(2)])
    then have v: "urlencode v = urlencode v'" and t: "toString (p # ps) = toString (q # qs')"
      by simp_all
    from t have "p # ps = q # qs'" by (rule "3.IH")
    with k v 3 show ?thesis by (simp add: urlencode_inj)
  qed
qed

text \<open>
  C2 (amended). For two search requests to \<^verbatim>\<open>anime\<close> or to \<^verbatim>\<open>manga\<close> (requests without a
  non-empty \<^verbatim>\<open>id\<close>), the cache keys are equal exactly when the parameter lists are equal as
  sequences: the key keeps the order of arrival.
\<close>

theorem search_key_eq_iff:
  assumes "get_truthy ps ''id'' = None" and "get_truthy qs ''id'' = None"
  shows "(plan_key (anime_handler ps) = plan_key (anime_handler qs) \<longleftrightarrow> ps = qs) \<and>
         (plan_key (manga_handler ps) = plan_key (manga_handler qs) \<longleftrightarrow> ps = qs)"
  using assms toString_inj [of ps qs] by (auto simp: anime_handler_def manga_handler_def)

theorem search_key_eq_iff_witness:
  "get_truthy [(''q'', ''naruto''), (''page'', ''1'')] ''id'' = None \<and>
   get_truthy [(''page'', ''1''), (''q'', ''naruto'')] ''id'' = None \<and>
   plan_key (anime_handler [(''q'', ''naruto''), (''page'', ''1'')])
     \<noteq> plan_key (anime_handler [(''page'', ''1''), (''q'', ''naruto'')]) \<and>
   plan_key (manga_handler [(''q'', ''naruto''), (''page'', ''1'')])
     \<noteq> plan_key (manga_handler [(''page'', ''1''), (''q'', ''naruto'')])"
  using search_key_eq_iff [of "[(''q'', ''naruto''), (''page'', ''1'')]"
      "[(''page'', ''1''), (''q'', ''naruto'')]"]
  by (simp add: get_truthy_def)

text \<open>
  C2 as stated fails: \<^verbatim>\<open>q=naruto&page=1\<close> and \<^verbatim>\<open>page=1&q=naruto\<close> hold the same pairs and get
  different keys.
\<close>

theorem search_key_depends_on_order:
  "set [(''q'', ''naruto''), (''page'', ''1'')] = set [(''page'', ''1''), (''q'', ''naruto'')] \<and>
   plan_key (anime_handler [(''q'', ''naruto''), (''page'', ''1'')])
     = ''anime_search_q=naruto&page=1'' \<and>
   plan_key (anime_handler [(''page'', ''1''), (''q'', ''naruto'')])
     = ''anime_search_page=1&q=naruto''"
  by (simp add: anime_handler_def get_truthy_def urlencode_def encode_byte_def unreserved_def
      insert_commute)

subsection \<open>The response envelope\<close>

lemma map_of_fold_update:
  "map_of (fold (\<lambda>(k, v). AList.update k v) props base) = map_of base ++ map_of (rev props)"
proof (induction props arbitrary: base)
  case Nil
  then show ?case by simp
next
  case (Cons kv props)
  obtain k v where kv: "kv = (k, v)" by (cases kv)
  have "map_of (fold (\<lambda>(k, v). AList.update k v) (kv # props) base)
      = map_of (AList.update k v base) ++ map_of (rev props)"
    using Cons.IH [of "AList.update k v base"] kv by simp
  also have "\<dots> = map_of base ++ map_of (rev (kv # props))"
    by (simp add: kv update_conv' map_add_def fun_eq_iff split: option.splits)
  finally show ?case .
qed

lemma map_of_spread:
  "map_of (spread base x) k = (case prop_of x k of Some v \<Rightarrow> Some v | None \<Rightarrow> map_of base k)"
  by (simp add: spread_def prop_of_def map_of_fold_update map_add_def)

text \<open>
  C9 (amended). A successful response to an endpoint other than \<^verbatim>\<open>random\<close> and \<^verbatim>\<open>stats\<close>
  whose payload has no top-level property \<^verbatim>\<open>cached\<close> carries \<^verbatim>\<open>cached: true\<close>, whatever the
  origin of the payload: the envelope is a function of the endpoint name, the time and the
  payload alone.
\<close>

theorem cached_flag_from_endpoint:
  assumes "endpoint \<noteq> ''random''" and "endpoint \<noteq> ''stats''"
    and "prop_of jikanData ''cached'' = None"
  shows "\<exists>envelope. respond endpoint isoNow (Resolved jikanData) = Ok200 envelope \<and>
           map_of envelope ''cached'' = Some (JBool True)"
  using assms by (simp add: respond_def enhancedData_def map_of_spread)

theorem cached_flag_from_endpoint_witness:
  "''anime'' \<noteq> ''random'' \<and> ''anime'' \<noteq> ''stats'' \<and>
   prop_of (JObj [(''data'', JNum 5)]) ''cached'' = None \<and>
   (\<exists>envelope. respond ''anime'' ''2026-01-01T00:00:00.000Z'' (Resolved (JObj [(''data'', JNum 5)]))
        = Ok200 envelope \<and>
      map_of envelope ''cached'' = Some (JBool True))"
  using cached_flag_from_endpoint
    [of "''anime''" "JObj [(''data'', JNum 5)]" "''2026-01-01T00:00:00.000Z''"]
  by (simp add: prop_of_def)

text \<open>
  C9 as stated fails: a payload with a top-level \<^verbatim>\<open>cached: false\<close> for the endpoint \<^verbatim>\<open>anime\<close>
  gives an envelope with \<^verbatim>\<open>cached: false\<close>.
\<close>

theorem cached_flag_overwritten:
  "respond ''anime'' ''t'' (Resolved (JObj [(''cached'', JBool False)]))
     = Ok200 [(''source'', JStr ''Jikan API Proxy''), (''cached'', JBool False),
              (''timestamp'', JStr ''t''), (''endpoint'', JStr ''anime'')]"
  by (simp add: respond_def enhancedData_def spread_def)






subsection \<open>The dispatcher\<close>

text \<open>What each part of the event loop does to the fields of the state.\<close>

lemma settle_fields [simp]:
  "clock (settle i r w) = clock w"
  "app (settle i r w) = app w"
  "requestQueue (settle i r w) = requestQueue w"
  "processingQueue (settle i r w) = processingQueue w"
  "inflight (settle i r w) = inflight w"
  "cooldown (settle i r w) = cooldown w"
  "submitted (settle i r w) = submitted w"
  "started (settle i r w) = started w"
  "settled (settle i r w) = settled w @ [(i, r)]"
  "fetched (settle i r w) = fetched w"
  "cooldowns (settle i r w) = cooldowns w"
  by (simp_all add: settle_def)

lemma arm_cooldown_fields [simp]:
  "clock (arm_cooldown w) = clock w"
  "app (arm_cooldown w) = app w"
  "requestQueue (arm_cooldown w) = requestQueue w"
  "processingQueue (arm_cooldown w) = processingQueue w"
  "inflight (arm_cooldown w) = inflight w"
  "cooldown (arm_cooldown w) = Some (clock w + 1000)"
  "submitted (arm_cooldown w) = submitted w"
  "started (arm_cooldown w) = started w"
  "settled (arm_cooldown w) = settled w"
  "fetched (arm_cooldown w) = fetched w"
  "cooldowns (arm_cooldown w) = cooldowns w @ [clock w + 1000]"
  by (simp_all add: arm_cooldown_def)

lemma start_task_cases:
  obtains (finished) r a where
      "start_task t w = settle (task_id t) r (w\<lparr>started := started w @ [(task_id t, clock w)], app := a\<rparr>)"
    | (waiting) p a where
      "start_task t w = w\<lparr>started := started w @ [(task_id t, clock w)], app := a,
          inflight := inflight w @ [(task_id t, p)], fetched := fetched w @ [pending_url p]\<rparr>"
proof (cases "begin_request (clock w) (length (requestQueue w)) (task_endpoint t) (task_params t) (app w)")
  case (Pair ph a)
  show ?thesis
  proof (cases ph)
    case (Done r)
    with Pair have "start_task t w = settle (task_id t) r (w\<lparr>started := started w @ [(task_id t, clock w)], app := a\<rparr>)"
      by (simp add: start_task_def)
    then show ?thesis by (rule finished)
  next
    case (Await p)
    with Pair have "start_task t w = w\<lparr>started := started w @ [(task_id t, clock w)], app := a,
          inflight := inflight w @ [(task_id t, p)], fetched := fetched w @ [pending_url p]\<rparr>"
      by (simp add: start_task_def)
    then show ?thesis by (rule waiting)
  qed
qed

lemma start_task_frame [simp]:
  "clock (start_task t w) = clock w"
  "requestQueue (start_task t w) = requestQueue w"
  "processingQueue (start_task t w) = processingQueue w"
  "cooldown (start_task t w) = cooldown w"
  "submitted (start_task t w) = submitted w"
  "cooldowns (start_task t w) = cooldowns w"
  "started (start_task t w) = started w @ [(task_id t, clock w)]"
  by (cases t w rule: start_task_cases; simp)+

lemma fold_start_task_frame [simp]:
  "clock (fold start_task ts w) = clock w"
  "requestQueue (fold start_task ts w) = requestQueue w"
  "processingQueue (fold start_task ts w) = processingQueue w"
  "cooldown (fold start_task ts w) = cooldown w"
  "submitted (fold start_task ts w) = submitted w"
  "cooldowns (fold start_task ts w) = cooldowns w"
  by (induction ts arbitrary: w; simp)+

lemma fold_start_task_started [simp]:
  "started (fold start_task ts w) = started w @ map (\<lambda>t. (task_id t, clock w)) ts"
  by (induction ts arbitrary: w) simp_all


lemma upt_add_Suc_Cons: "[k..<k + Suc n] = k # [Suc k..<Suc k + n]"
  using upt_conv_Cons [of k "k + Suc n"] by simp

lemma take_upt_min: "k \<le> s \<Longrightarrow> take m [k..<s] = [k..<k + min m (s - k)]"
proof (cases "m \<le> s - k")
  case True
  assume "k \<le> s"
  with True have "k + m \<le> s" by simp
  then have "take m [k..<s] = [k..<k + m]" by (rule take_upt)
  with True show ?thesis by (simp add: min_def)
next
  case False
  assume "k \<le> s"
  with False show ?thesis by (simp add: min_def)
qed

lemma drop_upt_min: "k \<le> s \<Longrightarrow> drop m [k..<s] = [k + min m (s - k)..<s]"
  by (cases "m \<le> s - k") (simp_all add: min_def)

lemma fold_start_task_ids:
  assumes "distinct (map fst (inflight w) @ map fst (settled w))"
    and "set (map fst (inflight w) @ map fst (settled w)) = {0..<k}"
    and "map task_id ts = [k..<k + length ts]"
  shows "distinct (map fst (inflight (fold start_task ts w)) @ map fst (settled (fold start_task ts w))) \<and>
         set (map fst (inflight (fold start_task ts w)) @ map fst (settled (fold start_task ts w)))
           = {0..<k + length ts}"
  using assms
proof (induction ts arbitrary: w k)
  case Nil
  then show ?case by simp
next
  case (Cons t ts)
  from Cons.prems(3) have "task_id t # map task_id ts = k # [Suc k..<Suc k + length ts]"
    by (simp only: list.map length_Cons upt_add_Suc_Cons)
  then have tk: "task_id t = k" and rest: "map task_id ts = [Suc k..<Suc k + length ts]"
    by simp_all
  have "distinct (map fst (inflight (start_task t w)) @ map fst (settled (start_task t w))) \<and>
        set (map fst (inflight (start_task t w)) @ map fst (settled (start_task t w))) = {0..<Suc k}"
    using Cons.prems(1,2) tk
    by (cases t w rule: start_task_cases) (auto simp: atLeastLessThanSuc)
  then have "distinct (map fst (inflight (fold start_task ts (start_task t w)))
                 @ map fst (settled (fold start_task ts (start_task t w)))) \<and>
        set (map fst (inflight (fold start_task ts (start_task t w)))
                 @ map fst (settled (fold start_task ts (start_task t w))))
          = {0..<Suc k + length ts}"
    using rest by (intro Cons.IH) simp_all
  then show ?case by simp
qed

lemma if_armed: "P x \<Longrightarrow> P (arm_cooldown x) \<Longrightarrow> P (if c then arm_cooldown x else x)"
  by (cases c) simp_all

lemma ids_ok_cong:
  "requestQueue w' = requestQueue w \<Longrightarrow> started w' = started w \<Longrightarrow> submitted w' = submitted w
   \<Longrightarrow> inflight w' = inflight w \<Longrightarrow> settled w' = settled w \<Longrightarrow> ids_ok w' = ids_ok w"
  by (simp add: ids_ok_def)

lemma ids_okI:
  assumes "map task_id (requestQueue w) = [length (started w)..<submitted w]"
    and "length (started w) \<le> submitted w"
    and "map fst (started w) = [0..<length (started w)]"
    and "distinct (map fst (inflight w) @ map fst (settled w))"
    and "set (map fst (inflight w) @ map fst (settled w)) = {0..<length (started w)}"
  shows "ids_ok w"
  unfolding ids_ok_def using assms by blast

lemma processQueue_idle: "processingQueue w \<or> requestQueue w = [] \<Longrightarrow> processQueue w = w"
  by (simp add: processQueue_def)

lemma processQueue_start:
  "\<not> processingQueue w \<Longrightarrow> requestQueue w \<noteq> [] \<Longrightarrow>
   processQueue w = (if inflight (start_batch w) = [] then arm_cooldown (start_batch w) else start_batch w)"
  by (simp add: processQueue_def start_batch_def Let_def)

lemma start_batch_fields [simp]:
  "clock (start_batch w) = clock w"
  "requestQueue (start_batch w) = drop MAX_REQUESTS_PER_SECOND (requestQueue w)"
  "processingQueue (start_batch w) = True"
  "cooldown (start_batch w) = cooldown w"
  "submitted (start_batch w) = submitted w"
  "cooldowns (start_batch w) = cooldowns w"
  "started (start_batch w) = started w @ map (\<lambda>t. (task_id t, clock w)) (take MAX_REQUESTS_PER_SECOND (requestQueue w))"
  by (simp_all add: start_batch_def)

lemma ids_ok_processQueue: "ids_ok w \<Longrightarrow> ids_ok (processQueue w)"
proof (cases "processingQueue w \<or> requestQueue w = []")
  case True
  assume "ids_ok w"
  with True show ?thesis by (simp add: processQueue_idle)
next
  case False
  assume ok: "ids_ok w"
  let ?k = "length (started w)"
  let ?q = "requestQueue w"
  let ?b = "take MAX_REQUESTS_PER_SECOND ?q"
  from ok have q: "map task_id ?q = [?k..<submitted w]" and le: "?k \<le> submitted w"
    and st: "map fst (started w) = [0..<?k]"
    and d: "distinct (map fst (inflight w) @ map fst (settled w))"
    and s: "set (map fst (inflight w) @ map fst (settled w)) = {0..<?k}"
    by (simp_all add: ids_ok_def)
  from q have len: "length ?q = submitted w - ?k"
    by (metis length_map length_upt)
  have lb: "length ?b = min MAX_REQUESTS_PER_SECOND (submitted w - ?k)"
    using len by simp
  have b: "map task_id ?b = [?k..<?k + length ?b]"
  proof -
    have "map task_id ?b = take MAX_REQUESTS_PER_SECOND (map task_id ?q)"
      by (simp only: take_map)
    also have "\<dots> = [?k..<?k + length ?b]"
      using le by (simp only: q lb take_upt_min)
    finally show ?thesis .
  qed
  have r: "map task_id (drop MAX_REQUESTS_PER_SECOND ?q) = [?k + length ?b..<submitted w]"
  proof -
    have "map task_id (drop MAX_REQUESTS_PER_SECOND ?q) = drop MAX_REQUESTS_PER_SECOND (map task_id ?q)"
      by (simp only: drop_map)
    also have "\<dots> = [?k + length ?b..<submitted w]"
      using le by (simp only: q lb drop_upt_min)
    finally show ?thesis .
  qed
  have sb: "map fst (started (start_batch w)) = [0..<?k + length ?b]"
  proof -
    have "map fst (started (start_batch w)) = map fst (started w) @ map task_id ?b"
      by (simp add: comp_def)
    also have "\<dots> = [0..<?k] @ [?k..<?k + length ?b]"
      by (simp only: st b)
    also have "\<dots> = [0..<?k + length ?b]"
      by (rule upt_add_eq_append [symmetric]) simp
    finally show ?thesis .
  qed
  have ls: "length (started (start_batch w)) = ?k + length ?b"
    by simp
  have le': "?k + length ?b \<le> submitted w"
    using le lb by simp
  have fl: "distinct (map fst (inflight (start_batch w)) @ map fst (settled (start_batch w))) \<and>
         set (map fst (inflight (start_batch w)) @ map fst (settled (start_batch w)))
           = {0..<?k + length ?b}"
    unfolding start_batch_def using d s b by (intro fold_start_task_ids) simp_all
  have "ids_ok (start_batch w)"
  proof (rule ids_okI)
    show "map task_id (requestQueue (start_batch w))
        = [length (started (start_batch w))..<submitted (start_batch w)]"
      by (simp only: ls start_batch_fields(2,5) r)
    show "length (started (start_batch w)) \<le> submitted (start_batch w)"
      by (simp only: ls start_batch_fields(5) le')
    show "map fst (started (start_batch w)) = [0..<length (started (start_batch w))]"
      by (simp only: ls sb)
    show "distinct (map fst (inflight (start_batch w)) @ map fst (settled (start_batch w)))"
      using fl by (rule conjunct1)
    show "set (map fst (inflight (start_batch w)) @ map fst (settled (start_batch w)))
        = {0..<length (started (start_batch w))}"
      using fl by (simp only: ls)
  qed
  moreover have "ids_ok (arm_cooldown (start_batch w)) = ids_ok (start_batch w)"
    by (rule ids_ok_cong) simp_all
  ultimately have "ids_ok (arm_cooldown (start_batch w))"
    by simp
  with \<open>ids_ok (start_batch w)\<close> show ?thesis
    using False by (simp add: processQueue_start)
qed


lemma reply_cases:
  assumes "map_of (inflight w) i = Some p"
  obtains r a where
    "act (Reply i reply) w =
       (if AList.delete i (inflight w) = []
        then arm_cooldown (settle i r (w\<lparr>app := a, inflight := AList.delete i (inflight w),
          answered := answered w @ [(i, p, reply)]\<rparr>))
        else settle i r (w\<lparr>app := a, inflight := AList.delete i (inflight w),
          answered := answered w @ [(i, p, reply)]\<rparr>))"
proof (cases "resume_request p reply (app w)")
  case (Pair r a)
  with assms have "act (Reply i reply) w =
       (if AList.delete i (inflight w) = []
        then arm_cooldown (settle i r (w\<lparr>app := a, inflight := AList.delete i (inflight w),
          answered := answered w @ [(i, p, reply)]\<rparr>))
        else settle i r (w\<lparr>app := a, inflight := AList.delete i (inflight w),
          answered := answered w @ [(i, p, reply)]\<rparr>))"
    by (simp add: Let_def)
  then show ?thesis by (rule that)
qed

lemma reply_unknown: "map_of (inflight w) i = None \<Longrightarrow> act (Reply i reply) w = w"
  by simp

lemma ids_ok_enqueueRequest: "ids_ok w \<Longrightarrow> ids_ok (enqueueRequest endpoint ps w)"
proof -
  assume ok: "ids_ok w"
  let ?w = "w\<lparr>requestQueue := requestQueue w
               @ [\<lparr>task_id = submitted w, task_endpoint = endpoint, task_params = ps\<rparr>],
             submitted := submitted w + 1\<rparr>"
  from ok have "ids_ok ?w" by (simp add: ids_ok_def)
  then have "ids_ok (processQueue ?w)" by (rule ids_ok_processQueue)
  then show ?thesis by (simp add: enqueueRequest_def)
qed

lemma ids_ok_reply: "ids_ok w \<Longrightarrow> ids_ok (act (Reply i reply) w)"
proof (cases "map_of (inflight w) i")
  case None
  assume "ids_ok w"
  with None show ?thesis by simp
next
  case (Some p)
  assume ok: "ids_ok w"
  from Some have mem: "i \<in> set (map fst (inflight w))"
    by (metis map_of_eq_None_iff option.distinct(1) set_map)
  obtain r a where eq: "act (Reply i reply) w =
       (if AList.delete i (inflight w) = []
        then arm_cooldown (settle i r (w\<lparr>app := a, inflight := AList.delete i (inflight w),
          answered := answered w @ [(i, p, reply)]\<rparr>))
        else settle i r (w\<lparr>app := a, inflight := AList.delete i (inflight w),
          answered := answered w @ [(i, p, reply)]\<rparr>))"
    using Some by (rule reply_cases)
  have "ids_ok (settle i r (w\<lparr>app := a, inflight := AList.delete i (inflight w),
          answered := answered w @ [(i, p, reply)]\<rparr>))"
    using ok mem unfolding ids_ok_def
    by (auto simp: delete_keys distinct_removeAll)
  moreover have "ids_ok (arm_cooldown (settle i r (w\<lparr>app := a, inflight := AList.delete i (inflight w),
          answered := answered w @ [(i, p, reply)]\<rparr>)))
      = ids_ok (settle i r (w\<lparr>app := a, inflight := AList.delete i (inflight w),
          answered := answered w @ [(i, p, reply)]\<rparr>))"
    by (rule ids_ok_cong) simp_all
  ultimately have "ids_ok (settle i r (w\<lparr>app := a, inflight := AList.delete i (inflight w),
          answered := answered w @ [(i, p, reply)]\<rparr>))"
    and "ids_ok (arm_cooldown (settle i r (w\<lparr>app := a, inflight := AList.delete i (inflight w),
          answered := answered w @ [(i, p, reply)]\<rparr>)))"
    by simp_all
  then show ?thesis unfolding eq by (rule if_armed)
qed

lemma ids_ok_timer: "ids_ok w \<Longrightarrow> ids_ok (act Timer w)"
proof -
  assume ok: "ids_ok w"
  then have "ids_ok (w\<lparr>cooldown := None, processingQueue := False\<rparr>)"
    by (simp add: ids_ok_def)
  then have "ids_ok (processQueue (w\<lparr>cooldown := None, processingQueue := False\<rparr>))"
    by (rule ids_ok_processQueue)
  with ok show ?thesis by (simp split: option.splits)
qed

lemma ids_ok_act: "ids_ok w \<Longrightarrow> ids_ok (act a w)"
proof (cases a)
  case (Request req)
  assume "ids_ok w"
  then show ?thesis
    using Request ids_ok_enqueueRequest by (simp add: serve_def split: sum.splits prod.splits)
next
  case (Reply i reply)
  assume "ids_ok w"
  then show ?thesis using Reply ids_ok_reply by simp
next
  case Timer
  assume "ids_ok w"
  then show ?thesis using Timer ids_ok_timer by simp
next
  case Sweep
  assume "ids_ok w"
  then show ?thesis using Sweep by (simp add: ids_ok_def)
next
  case Flush
  assume "ids_ok w"
  then show ?thesis using Flush by (simp add: ids_ok_def)
qed


lemma ids_ok_boot: "ids_ok (boot t0 a)"
  by (simp add: ids_ok_def boot_def)

text \<open>The dispatcher is busy exactly while a batch runs or cools down.\<close>

lemma status_ok_processQueue:
  assumes "\<not> processingQueue w" and "inflight w = []" and "cooldown w = None"
  shows "status_ok (processQueue w)"
proof (cases "requestQueue w = []")
  case True
  with assms show ?thesis by (simp add: processQueue_idle status_ok_def)
next
  case False
  with assms show ?thesis by (simp add: processQueue_start status_ok_def)
qed

lemma status_ok_enqueueRequest: "status_ok w \<Longrightarrow> status_ok (enqueueRequest endpoint ps w)"
proof (cases "processingQueue w")
  case True
  assume "status_ok w"
  with True show ?thesis by (simp add: enqueueRequest_def processQueue_idle status_ok_def)
next
  case False
  assume "status_ok w"
  with False have "inflight w = []" "cooldown w = None" by (simp_all add: status_ok_def)
  with False show ?thesis unfolding enqueueRequest_def by (intro status_ok_processQueue) simp_all
qed

lemma status_ok_reply: "status_ok w \<Longrightarrow> status_ok (act (Reply i reply) w)"
proof (cases "map_of (inflight w) i")
  case None
  assume "status_ok w"
  with None show ?thesis by simp
next
  case (Some p)
  assume ok: "status_ok w"
  from Some have ne: "inflight w \<noteq> []" by auto
  with ok have pr: "processingQueue w" and cd: "cooldown w = None"
    by (auto simp: status_ok_def split: if_splits)
  obtain r a where eq: "act (Reply i reply) w =
       (if AList.delete i (inflight w) = []
        then arm_cooldown (settle i r (w\<lparr>app := a, inflight := AList.delete i (inflight w),
          answered := answered w @ [(i, p, reply)]\<rparr>))
        else settle i r (w\<lparr>app := a, inflight := AList.delete i (inflight w),
          answered := answered w @ [(i, p, reply)]\<rparr>))"
    using Some by (rule reply_cases)
  show ?thesis unfolding eq using pr cd by (simp add: status_ok_def)
qed

lemma status_ok_timer: "status_ok w \<Longrightarrow> status_ok (act Timer w)"
proof (cases "cooldown w")
  case None
  assume "status_ok w"
  with None show ?thesis by simp
next
  case (Some due)
  assume ok: "status_ok w"
  with Some have "inflight w = []" by (auto simp: status_ok_def split: if_splits)
  then have "status_ok (processQueue (w\<lparr>cooldown := None, processingQueue := False\<rparr>))"
    by (intro status_ok_processQueue) simp_all
  with ok Some show ?thesis by simp
qed

lemma status_ok_act: "status_ok w \<Longrightarrow> status_ok (act a w)"
proof (cases a)
  case (Request req)
  assume "status_ok w"
  then show ?thesis
    using Request status_ok_enqueueRequest by (simp add: serve_def split: sum.splits prod.splits)
next
  case (Reply i reply)
  assume "status_ok w"
  then show ?thesis using Reply status_ok_reply by simp
next
  case Timer
  assume "status_ok w"
  then show ?thesis using Timer status_ok_timer by simp
next
  case Sweep
  assume "status_ok w"
  then show ?thesis using Sweep by (simp add: status_ok_def)
next
  case Flush
  assume "status_ok w"
  then show ?thesis using Flush by (simp add: status_ok_def)
qed


lemma status_ok_boot: "status_ok (boot t0 a)"
  by (simp add: status_ok_def boot_def)


text \<open>Starts and the clock.\<close>

lemma timing_okI:
  assumes "\<forall>e \<in> set (started w). snd e \<le> clock w"
    and "\<not> processingQueue w \<longrightarrow> (\<forall>e \<in> set (started w). snd e + 1000 \<le> clock w)"
    and "\<forall>due. cooldown w = Some due \<longrightarrow> (\<forall>e \<in> set (started w). snd e + 1000 \<le> due)"
    and "sorted (map snd (started w))"
    and "\<forall>s. length (filter (\<lambda>e. s \<le> snd e \<and> snd e < s + 1000) (started w))
            \<le> MAX_REQUESTS_PER_SECOND"
  shows "timing_ok w"
  unfolding timing_ok_def using assms by blast

lemma timing_ok_cong:
  "clock w' = clock w \<Longrightarrow> started w' = started w \<Longrightarrow> processingQueue w' = processingQueue w
   \<Longrightarrow> cooldown w' = cooldown w \<Longrightarrow> timing_ok w' = timing_ok w"
  by (simp add: timing_ok_def)

lemma timing_ok_start_batch:
  assumes ok: "timing_ok w" and idle: "\<not> processingQueue w" and cd: "cooldown w = None"
  shows "timing_ok (start_batch w)" and "timing_ok (arm_cooldown (start_batch w))"
proof -
  let ?b = "take MAX_REQUESTS_PER_SECOND (requestQueue w)"
  let ?new = "map (\<lambda>t. (task_id t, clock w)) ?b"
  from ok have past: "\<forall>e \<in> set (started w). snd e \<le> clock w"
    and srt: "sorted (map snd (started w))"
    and win: "\<And>s. length (filter (\<lambda>e. s \<le> snd e \<and> snd e < s + 1000) (started w))
            \<le> MAX_REQUESTS_PER_SECOND"
    by (simp_all add: timing_ok_def)
  from ok idle have old: "\<forall>e \<in> set (started w). snd e + 1000 \<le> clock w"
    by (simp add: timing_ok_def)
  have st: "started (start_batch w) = started w @ ?new" by simp
  have lb: "length ?new \<le> MAX_REQUESTS_PER_SECOND" by simp
  have past': "\<forall>e \<in> set (started w @ ?new). snd e \<le> clock w"
    using past by auto
  have srt': "sorted (map snd (started w @ ?new))"
  proof -
    have "map snd ?new = replicate (length ?b) (clock w)"
      by (simp add: map_replicate_const comp_def)
    then show ?thesis using srt past by (auto simp: sorted_append)
  qed
  have win': "length (filter (\<lambda>e. s \<le> snd e \<and> snd e < s + 1000) (started w @ ?new))
            \<le> MAX_REQUESTS_PER_SECOND" for s
  proof (cases "s \<le> clock w \<and> clock w < s + 1000")
    case True
    have "filter (\<lambda>e. s \<le> snd e \<and> snd e < s + 1000) (started w) = []"
      using old True by (fastforce simp: filter_empty_conv)
    then have "length (filter (\<lambda>e. s \<le> snd e \<and> snd e < s + 1000) (started w @ ?new))
        = length (filter (\<lambda>e. s \<le> snd e \<and> snd e < s + 1000) ?new)"
      by simp
    also have "\<dots> \<le> length ?new" by (rule length_filter_le)
    finally show ?thesis using lb by simp
  next
    case False
    have "filter (\<lambda>e. s \<le> snd e \<and> snd e < s + 1000) ?new = []"
      using False by (auto simp: filter_empty_conv)
    then have "length (filter (\<lambda>e. s \<le> snd e \<and> snd e < s + 1000) (started w @ ?new))
        = length (filter (\<lambda>e. s \<le> snd e \<and> snd e < s + 1000) (started w))"
      by simp
    then show ?thesis using win [of s] by simp
  qed
  show "timing_ok (start_batch w)"
  proof (rule timing_okI)
    show "\<forall>e \<in> set (started (start_batch w)). snd e \<le> clock (start_batch w)"
      using past' by (simp only: st start_batch_fields(1))
    show "\<not> processingQueue (start_batch w) \<longrightarrow>
        (\<forall>e \<in> set (started (start_batch w)). snd e + 1000 \<le> clock (start_batch w))"
      by simp
    show "\<forall>due. cooldown (start_batch w) = Some due \<longrightarrow>
        (\<forall>e \<in> set (started (start_batch w)). snd e + 1000 \<le> due)"
      using cd by simp
    show "sorted (map snd (started (start_batch w)))"
      using srt' by (simp only: st)
    show "\<forall>s. length (filter (\<lambda>e. s \<le> snd e \<and> snd e < s + 1000) (started (start_batch w)))
            \<le> MAX_REQUESTS_PER_SECOND"
      using win' by (simp only: st) simp
  qed
  show "timing_ok (arm_cooldown (start_batch w))"
  proof (rule timing_okI)
    show "\<forall>e \<in> set (started (arm_cooldown (start_batch w))). snd e \<le> clock (arm_cooldown (start_batch w))"
      using past' by (simp only: st start_batch_fields(1) arm_cooldown_fields)
    show "\<not> processingQueue (arm_cooldown (start_batch w)) \<longrightarrow>
        (\<forall>e \<in> set (started (arm_cooldown (start_batch w))).
            snd e + 1000 \<le> clock (arm_cooldown (start_batch w)))"
      by simp
    show "\<forall>due. cooldown (arm_cooldown (start_batch w)) = Some due \<longrightarrow>
        (\<forall>e \<in> set (started (arm_cooldown (start_batch w))). snd e + 1000 \<le> due)"
      using past' by (simp only: st start_batch_fields(1) arm_cooldown_fields) simp
    show "sorted (map snd (started (arm_cooldown (start_batch w))))"
      using srt' by (simp only: st arm_cooldown_fields)
    show "\<forall>s. length (filter (\<lambda>e. s \<le> snd e \<and> snd e < s + 1000)
                  (started (arm_cooldown (start_batch w))))
            \<le> MAX_REQUESTS_PER_SECOND"
      using win' by (simp only: st arm_cooldown_fields) simp
  qed
qed

lemma timing_ok_processQueue:
  assumes "timing_ok w" and "\<not> processingQueue w \<longrightarrow> cooldown w = None"
  shows "timing_ok (processQueue w)"
proof (cases "processingQueue w \<or> requestQueue w = []")
  case True
  with assms show ?thesis by (simp add: processQueue_idle)
next
  case False
  then have idle: "\<not> processingQueue w" and ne: "requestQueue w \<noteq> []" by simp_all
  with assms have cd: "cooldown w = None" by simp
  have "timing_ok (start_batch w)" "timing_ok (arm_cooldown (start_batch w))"
    using assms(1) idle cd by (rule timing_ok_start_batch)+
  then show ?thesis unfolding processQueue_start [OF idle ne] by (rule if_armed)
qed

lemma timing_ok_enqueueRequest:
  assumes "timing_ok w" and "status_ok w"
  shows "timing_ok (enqueueRequest endpoint ps w)"
proof -
  let ?w = "w\<lparr>requestQueue := requestQueue w
               @ [\<lparr>task_id = submitted w, task_endpoint = endpoint, task_params = ps\<rparr>],
             submitted := submitted w + 1\<rparr>"
  have "timing_ok ?w = timing_ok w" by (rule timing_ok_cong) simp_all
  with assms(1) have "timing_ok ?w" by simp
  moreover from assms(2) have "\<not> processingQueue ?w \<longrightarrow> cooldown ?w = None"
    by (simp add: status_ok_def)
  ultimately have "timing_ok (processQueue ?w)" by (rule timing_ok_processQueue)
  then show ?thesis by (simp add: enqueueRequest_def)
qed

lemma timing_ok_reply: "timing_ok w \<Longrightarrow> timing_ok (act (Reply i reply) w)"
proof (cases "map_of (inflight w) i")
  case None
  assume "timing_ok w"
  with None show ?thesis by simp
next
  case (Some p)
  assume ok: "timing_ok w"
  obtain r a where eq: "act (Reply i reply) w =
       (if AList.delete i (inflight w) = []
        then arm_cooldown (settle i r (w\<lparr>app := a, inflight := AList.delete i (inflight w),
          answered := answered w @ [(i, p, reply)]\<rparr>))
        else settle i r (w\<lparr>app := a, inflight := AList.delete i (inflight w),
          answered := answered w @ [(i, p, reply)]\<rparr>))"
    using Some by (rule reply_cases)
  let ?w = "settle i r (w\<lparr>app := a, inflight := AList.delete i (inflight w),
          answered := answered w @ [(i, p, reply)]\<rparr>)"
  have "timing_ok ?w = timing_ok w" by (rule timing_ok_cong) simp_all
  with ok have A: "timing_ok ?w" by simp
  from ok have B: "timing_ok (arm_cooldown ?w)"
    by (simp add: timing_ok_def)
  from A B show ?thesis unfolding eq by (rule if_armed)
qed

lemma timing_ok_timer: "timing_ok w \<Longrightarrow> timing_ok (act Timer w)"
proof (cases "cooldown w")
  case None
  assume "timing_ok w"
  with None show ?thesis by simp
next
  case (Some due)
  assume ok: "timing_ok w"
  show ?thesis
  proof (cases "due \<le> clock w")
    case False
    with ok Some show ?thesis by simp
  next
    case True
    let ?w = "w\<lparr>cooldown := None, processingQueue := False\<rparr>"
    from ok Some have "\<forall>e \<in> set (started w). snd e + 1000 \<le> due"
      by (simp add: timing_ok_def)
    with True have "\<forall>e \<in> set (started w). snd e + 1000 \<le> clock w"
      by fastforce
    with ok have "timing_ok ?w" by (simp add: timing_ok_def)
    then have "timing_ok (processQueue ?w)" by (rule timing_ok_processQueue) simp
    with Some True show ?thesis by simp
  qed
qed

lemma timing_ok_tick: "timing_ok w \<Longrightarrow> timing_ok (w\<lparr>clock := clock w + int n\<rparr>)"
  unfolding timing_ok_def by fastforce

lemma timing_ok_act: "timing_ok w \<Longrightarrow> status_ok w \<Longrightarrow> timing_ok (act a w)"
proof (cases a)
  case (Request req)
  assume "timing_ok w" "status_ok w"
  then show ?thesis
    using Request timing_ok_enqueueRequest by (simp add: serve_def split: sum.splits prod.splits)
next
  case (Reply i reply)
  assume "timing_ok w"
  then show ?thesis using Reply timing_ok_reply by simp
next
  case Timer
  assume "timing_ok w"
  then show ?thesis using Timer timing_ok_timer by simp
next
  case Sweep
  assume "timing_ok w"
  then show ?thesis using Sweep by (simp add: timing_ok_def)
next
  case Flush
  assume "timing_ok w"
  then show ?thesis using Flush by (simp add: timing_ok_def)
qed

lemma timing_ok_boot: "timing_ok (boot t0 a)"
  by (simp add: timing_ok_def boot_def)


text \<open>The cooldowns armed so far.\<close>

lemma cooldowns_okI:
  assumes "\<forall>c \<in> set (cooldowns w). c \<le> clock w + 1000"
    and "\<forall>due. cooldown w = Some due \<longrightarrow> cooldowns w \<noteq> [] \<and> hd (cooldowns w) \<le> due"
    and "\<not> processingQueue w \<and> started w \<noteq> [] \<longrightarrow>
        cooldowns w \<noteq> [] \<and> hd (cooldowns w) \<le> clock w"
    and "\<forall>e \<in> set (started w). MAX_REQUESTS_PER_SECOND \<le> fst e \<longrightarrow>
        cooldowns w \<noteq> [] \<and> hd (cooldowns w) \<le> snd e"
    and "cooldowns w \<noteq> [] \<longrightarrow>
        started w \<noteq> [] \<and> snd (hd (started w)) + 1000 \<le> hd (cooldowns w)"
  shows "cooldowns_ok w"
  unfolding cooldowns_ok_def using assms by blast

lemma cooldowns_ok_cong:
  "clock w' = clock w \<Longrightarrow> started w' = started w \<Longrightarrow> processingQueue w' = processingQueue w
   \<Longrightarrow> cooldown w' = cooldown w \<Longrightarrow> cooldowns w' = cooldowns w
   \<Longrightarrow> cooldowns_ok w' = cooldowns_ok w"
  by (simp add: cooldowns_ok_def)

lemma cooldowns_ok_arm:
  assumes ok: "cooldowns_ok w" and pr: "processingQueue w" and ne: "started w \<noteq> []"
    and past: "\<forall>e \<in> set (started w). snd e \<le> clock w"
  shows "cooldowns_ok (arm_cooldown w)"
proof (rule cooldowns_okI)
  from ok have k: "\<forall>c \<in> set (cooldowns w). c \<le> clock w + 1000"
    and n: "\<forall>e \<in> set (started w). MAX_REQUESTS_PER_SECOND \<le> fst e \<longrightarrow>
        cooldowns w \<noteq> [] \<and> hd (cooldowns w) \<le> snd e"
    and o: "cooldowns w \<noteq> [] \<longrightarrow>
        started w \<noteq> [] \<and> snd (hd (started w)) + 1000 \<le> hd (cooldowns w)"
    by (simp_all add: cooldowns_ok_def)
  have hd_le: "hd (cooldowns w @ [clock w + 1000]) \<le> clock w + 1000"
    using k by (cases "cooldowns w") simp_all
  show "\<forall>c \<in> set (cooldowns (arm_cooldown w)). c \<le> clock (arm_cooldown w) + 1000"
    using k by simp
  show "\<forall>due. cooldown (arm_cooldown w) = Some due \<longrightarrow>
      cooldowns (arm_cooldown w) \<noteq> [] \<and> hd (cooldowns (arm_cooldown w)) \<le> due"
    using hd_le by simp
  show "\<not> processingQueue (arm_cooldown w) \<and> started (arm_cooldown w) \<noteq> [] \<longrightarrow>
      cooldowns (arm_cooldown w) \<noteq> [] \<and> hd (cooldowns (arm_cooldown w)) \<le> clock (arm_cooldown w)"
    using pr by simp
  show "\<forall>e \<in> set (started (arm_cooldown w)). MAX_REQUESTS_PER_SECOND \<le> fst e \<longrightarrow>
      cooldowns (arm_cooldown w) \<noteq> [] \<and> hd (cooldowns (arm_cooldown w)) \<le> snd e"
    using n by (cases "cooldowns w") auto
  show "cooldowns (arm_cooldown w) \<noteq> [] \<longrightarrow>
      started (arm_cooldown w) \<noteq> [] \<and>
      snd (hd (started (arm_cooldown w))) + 1000 \<le> hd (cooldowns (arm_cooldown w))"
  proof (cases "cooldowns w")
    case Nil
    from ne have "hd (started w) \<in> set (started w)" by simp
    with past have "snd (hd (started w)) \<le> clock w" by blast
    with Nil ne show ?thesis by simp
  next
    case (Cons c cs)
    with o ne show ?thesis by simp
  qed
qed

lemma batch_ids:
  assumes "ids_ok w"
  shows "map task_id (take MAX_REQUESTS_PER_SECOND (requestQueue w))
     = [length (started w)..<length (started w)
          + length (take MAX_REQUESTS_PER_SECOND (requestQueue w))]"
proof -
  let ?k = "length (started w)"
  let ?q = "requestQueue w"
  let ?b = "take MAX_REQUESTS_PER_SECOND ?q"
  from assms have q: "map task_id ?q = [?k..<submitted w]" and le: "?k \<le> submitted w"
    by (simp_all add: ids_ok_def)
  from q have len: "length ?q = submitted w - ?k"
    by (metis length_map length_upt)
  have lb: "length ?b = min MAX_REQUESTS_PER_SECOND (submitted w - ?k)"
    using len by simp
  have "map task_id ?b = take MAX_REQUESTS_PER_SECOND (map task_id ?q)"
    by (simp only: take_map)
  also have "\<dots> = [?k..<?k + length ?b]"
    using le by (simp only: q lb take_upt_min)
  finally show ?thesis .
qed

lemma cooldowns_ok_start_batch:
  assumes ok: "cooldowns_ok w" and idle: "\<not> processingQueue w" and cd: "cooldown w = None"
    and ids: "ids_ok w"
  shows "cooldowns_ok (start_batch w)"
proof (rule cooldowns_okI)
  let ?b = "take MAX_REQUESTS_PER_SECOND (requestQueue w)"
  let ?new = "map (\<lambda>t. (task_id t, clock w)) ?b"
  from ok have k: "\<forall>c \<in> set (cooldowns w). c \<le> clock w + 1000"
    and m: "\<not> processingQueue w \<and> started w \<noteq> [] \<longrightarrow>
        cooldowns w \<noteq> [] \<and> hd (cooldowns w) \<le> clock w"
    and n: "\<forall>e \<in> set (started w). MAX_REQUESTS_PER_SECOND \<le> fst e \<longrightarrow>
        cooldowns w \<noteq> [] \<and> hd (cooldowns w) \<le> snd e"
    and o: "cooldowns w \<noteq> [] \<longrightarrow>
        started w \<noteq> [] \<and> snd (hd (started w)) + 1000 \<le> hd (cooldowns w)"
    by (simp_all add: cooldowns_ok_def)
  show "\<forall>c \<in> set (cooldowns (start_batch w)). c \<le> clock (start_batch w) + 1000"
    using k by simp
  show "\<forall>due. cooldown (start_batch w) = Some due \<longrightarrow>
      cooldowns (start_batch w) \<noteq> [] \<and> hd (cooldowns (start_batch w)) \<le> due"
    using cd by simp
  show "\<not> processingQueue (start_batch w) \<and> started (start_batch w) \<noteq> [] \<longrightarrow>
      cooldowns (start_batch w) \<noteq> [] \<and> hd (cooldowns (start_batch w)) \<le> clock (start_batch w)"
    by simp
  have new: "cooldowns w \<noteq> [] \<and> hd (cooldowns w) \<le> clock w"
    if t: "t \<in> set ?b" and big: "MAX_REQUESTS_PER_SECOND \<le> task_id t" for t
  proof (cases "started w = []")
    case False
    with m idle show ?thesis by simp
  next
    case True
    from t have "task_id t \<in> set (map task_id ?b)" by simp
    then have "task_id t \<in> set [0..<length ?b]"
      using batch_ids [OF ids] True by simp
    then have "task_id t < MAX_REQUESTS_PER_SECOND" by simp
    with big show ?thesis by simp
  qed
  show "\<forall>e \<in> set (started (start_batch w)). MAX_REQUESTS_PER_SECOND \<le> fst e \<longrightarrow>
      cooldowns (start_batch w) \<noteq> [] \<and> hd (cooldowns (start_batch w)) \<le> snd e"
    using n new by auto
  show "cooldowns (start_batch w) \<noteq> [] \<longrightarrow>
      started (start_batch w) \<noteq> [] \<and>
      snd (hd (started (start_batch w))) + 1000 \<le> hd (cooldowns (start_batch w))"
    using o by simp
qed

lemma cooldowns_ok_processQueue:
  assumes ok: "cooldowns_ok w" and t: "timing_ok w" and ids: "ids_ok w"
    and cd: "\<not> processingQueue w \<longrightarrow> cooldown w = None"
  shows "cooldowns_ok (processQueue w)"
proof (cases "processingQueue w \<or> requestQueue w = []")
  case True
  with ok show ?thesis by (simp add: processQueue_idle)
next
  case False
  then have idle: "\<not> processingQueue w" and ne: "requestQueue w \<noteq> []" by simp_all
  with cd have none: "cooldown w = None" by simp
  have A: "cooldowns_ok (start_batch w)"
    using ok idle none ids by (rule cooldowns_ok_start_batch)
  have "timing_ok (start_batch w)" using t idle none by (rule timing_ok_start_batch)
  then have past: "\<forall>e \<in> set (started (start_batch w)). snd e \<le> clock (start_batch w)"
    by (simp add: timing_ok_def)
  have "started (start_batch w) \<noteq> []"
    using ne by (simp add: MAX_REQUESTS_PER_SECOND_def)
  with A have B: "cooldowns_ok (arm_cooldown (start_batch w))"
    using past by (intro cooldowns_ok_arm) simp_all
  from A B show ?thesis unfolding processQueue_start [OF idle ne] by (rule if_armed)
qed

lemma ids_ok_push:
  "ids_ok w \<Longrightarrow> ids_ok (w\<lparr>requestQueue := requestQueue w
               @ [\<lparr>task_id = submitted w, task_endpoint = endpoint, task_params = ps\<rparr>],
             submitted := submitted w + 1\<rparr>)"
  by (simp add: ids_ok_def)

lemma cooldowns_ok_enqueueRequest:
  assumes "cooldowns_ok w" and "timing_ok w" and "ids_ok w" and "status_ok w"
  shows "cooldowns_ok (enqueueRequest endpoint ps w)"
proof -
  let ?w = "w\<lparr>requestQueue := requestQueue w
               @ [\<lparr>task_id = submitted w, task_endpoint = endpoint, task_params = ps\<rparr>],
             submitted := submitted w + 1\<rparr>"
  have "cooldowns_ok ?w = cooldowns_ok w" by (rule cooldowns_ok_cong) simp_all
  with assms(1) have "cooldowns_ok ?w" by simp
  moreover have "timing_ok ?w = timing_ok w" by (rule timing_ok_cong) simp_all
  with assms(2) have "timing_ok ?w" by simp
  moreover from assms(3) have "ids_ok ?w" by (rule ids_ok_push)
  moreover from assms(4) have "\<not> processingQueue ?w \<longrightarrow> cooldown ?w = None"
    by (simp add: status_ok_def)
  ultimately have "cooldowns_ok (processQueue ?w)" by (rule cooldowns_ok_processQueue)
  then show ?thesis by (simp add: enqueueRequest_def)
qed

lemma cooldowns_ok_reply:
  assumes ok: "cooldowns_ok w" and t: "timing_ok w" and ids: "ids_ok w" and st: "status_ok w"
  shows "cooldowns_ok (act (Reply i reply) w)"
proof (cases "map_of (inflight w) i")
  case None
  with ok show ?thesis by simp
next
  case (Some p)
  obtain r a where eq: "act (Reply i reply) w =
       (if AList.delete i (inflight w) = []
        then arm_cooldown (settle i r (w\<lparr>app := a, inflight := AList.delete i (inflight w),
          answered := answered w @ [(i, p, reply)]\<rparr>))
        else settle i r (w\<lparr>app := a, inflight := AList.delete i (inflight w),
          answered := answered w @ [(i, p, reply)]\<rparr>))"
    using Some by (rule reply_cases)
  let ?w = "settle i r (w\<lparr>app := a, inflight := AList.delete i (inflight w),
          answered := answered w @ [(i, p, reply)]\<rparr>)"
  from Some have mem: "i \<in> set (map fst (inflight w))"
    by (metis map_of_eq_None_iff option.distinct(1) set_map)
  then have ne: "inflight w \<noteq> []" by auto
  with st have pr: "processingQueue w" by (auto simp: status_ok_def split: if_splits)
  from ids have "set (map fst (inflight w) @ map fst (settled w)) = {0..<length (started w)}"
    by (simp add: ids_ok_def)
  moreover from mem have "i \<in> set (map fst (inflight w) @ map fst (settled w))" by simp
  ultimately have "i \<in> {0..<length (started w)}" by blast
  then have sne: "started w \<noteq> []" by auto
  from t have past: "\<forall>e \<in> set (started w). snd e \<le> clock w" by (simp add: timing_ok_def)
  have "cooldowns_ok ?w = cooldowns_ok w" by (rule cooldowns_ok_cong) simp_all
  with ok have A: "cooldowns_ok ?w" by simp
  then have B: "cooldowns_ok (arm_cooldown ?w)"
    using pr sne past by (intro cooldowns_ok_arm) simp_all
  from A B show ?thesis unfolding eq by (rule if_armed)
qed

lemma timing_ok_reset:
  assumes ok: "timing_ok w" and cd: "cooldown w = Some due" and due: "due \<le> clock w"
  shows "timing_ok (w\<lparr>cooldown := None, processingQueue := False\<rparr>)"
proof -
  from ok cd have "\<forall>e \<in> set (started w). snd e + 1000 \<le> due"
    by (simp add: timing_ok_def)
  with due have "\<forall>e \<in> set (started w). snd e + 1000 \<le> clock w"
    by fastforce
  with ok show ?thesis by (simp add: timing_ok_def)
qed

lemma cooldowns_ok_timer:
  assumes ok: "cooldowns_ok w" and t: "timing_ok w" and ids: "ids_ok w"
  shows "cooldowns_ok (act Timer w)"
proof (cases "cooldown w")
  case None
  with ok show ?thesis by simp
next
  case (Some due)
  show ?thesis
  proof (cases "due \<le> clock w")
    case False
    with ok Some show ?thesis by simp
  next
    case True
    let ?w = "w\<lparr>cooldown := None, processingQueue := False\<rparr>"
    from ok Some have "cooldowns w \<noteq> [] \<and> hd (cooldowns w) \<le> due"
      by (simp add: cooldowns_ok_def)
    with True have "cooldowns w \<noteq> [] \<and> hd (cooldowns w) \<le> clock w" by simp
    with ok have "cooldowns_ok ?w" by (simp add: cooldowns_ok_def)
    moreover have "timing_ok ?w" using t Some True by (rule timing_ok_reset)
    moreover have "ids_ok ?w = ids_ok w" by (rule ids_ok_cong) simp_all
    with ids have "ids_ok ?w" by simp
    moreover have "\<not> processingQueue ?w \<longrightarrow> cooldown ?w = None" by simp
    ultimately have "cooldowns_ok (processQueue ?w)" by (rule cooldowns_ok_processQueue)
    with Some True show ?thesis by simp
  qed
qed

lemma cooldowns_ok_tick: "cooldowns_ok w \<Longrightarrow> cooldowns_ok (w\<lparr>clock := clock w + int n\<rparr>)"
  unfolding cooldowns_ok_def by fastforce

lemma cooldowns_ok_act:
  assumes "cooldowns_ok w" and "timing_ok w" and "ids_ok w" and "status_ok w"
  shows "cooldowns_ok (act a w)"
proof (cases a)
  case (Request req)
  then show ?thesis
    using assms cooldowns_ok_enqueueRequest by (simp add: serve_def split: sum.splits prod.splits)
next
  case (Reply i reply)
  then show ?thesis using assms cooldowns_ok_reply by simp
next
  case Timer
  then show ?thesis using assms cooldowns_ok_timer by simp
next
  case Sweep
  then show ?thesis using assms(1) by (simp add: cooldowns_ok_def)
next
  case Flush
  then show ?thesis using assms(1) by (simp add: cooldowns_ok_def)
qed

lemma cooldowns_ok_boot: "cooldowns_ok (boot t0 a)"
  by (simp add: cooldowns_ok_def boot_def)

lemma dispatcher_ok_boot: "dispatcher_ok (boot t0 a)"
  unfolding dispatcher_ok_def
  using ids_ok_boot status_ok_boot timing_ok_boot cooldowns_ok_boot by blast

lemma dispatcher_ok_step:
  assumes "dispatcher_ok w"
  shows "dispatcher_ok (step ev w)"
proof -
  let ?w = "w\<lparr>clock := clock w + int (fst ev)\<rparr>"
  from assms have i: "ids_ok w" and s: "status_ok w" and t: "timing_ok w" and c: "cooldowns_ok w"
    by (simp_all add: dispatcher_ok_def)
  have "ids_ok ?w = ids_ok w" by (rule ids_ok_cong) simp_all
  with i have i': "ids_ok ?w" by simp
  from s have s': "status_ok ?w" by (simp add: status_ok_def)
  from t have t': "timing_ok ?w" by (rule timing_ok_tick)
  from c have c': "cooldowns_ok ?w" by (rule cooldowns_ok_tick)
  have "ids_ok (act (snd ev) ?w)" using i' by (rule ids_ok_act)
  moreover have "status_ok (act (snd ev) ?w)" using s' by (rule status_ok_act)
  moreover have "timing_ok (act (snd ev) ?w)" using t' s' by (rule timing_ok_act)
  moreover have "cooldowns_ok (act (snd ev) ?w)" using c' t' i' s' by (rule cooldowns_ok_act)
  ultimately show ?thesis by (simp add: dispatcher_ok_def step_def)
qed

lemma dispatcher_ok_run: "dispatcher_ok w \<Longrightarrow> dispatcher_ok (run evs w)"
  unfolding run_def
proof (induction evs arbitrary: w)
  case Nil
  then show ?case by simp
next
  case (Cons ev evs)
  from Cons.prems have "dispatcher_ok (step ev w)" by (rule dispatcher_ok_step)
  then have "dispatcher_ok (fold step evs (step ev w))" by (rule Cons.IH)
  then show ?case by simp
qed

lemma dispatcher_ok_reachable: "dispatcher_ok (run evs (boot t0 a))"
  using dispatcher_ok_boot by (rule dispatcher_ok_run)


lemma processQueue_submitted [simp]: "submitted (processQueue w) = submitted w"
  by (cases "processingQueue w \<or> requestQueue w = []")
     (simp_all add: processQueue_idle processQueue_start)

lemma reply_submitted: "submitted (act (Reply i reply) w) = submitted w"
proof (cases "map_of (inflight w) i")
  case None
  then show ?thesis by simp
next
  case (Some p)
  obtain r a where eq: "act (Reply i reply) w =
       (if AList.delete i (inflight w) = []
        then arm_cooldown (settle i r (w\<lparr>app := a, inflight := AList.delete i (inflight w),
          answered := answered w @ [(i, p, reply)]\<rparr>))
        else settle i r (w\<lparr>app := a, inflight := AList.delete i (inflight w),
          answered := answered w @ [(i, p, reply)]\<rparr>))"
    using Some by (rule reply_cases)
  show ?thesis unfolding eq by simp
qed

lemma timer_submitted: "submitted (act Timer w) = submitted w"
  by (simp split: option.splits)







lemma enqueueRequest_submitted: "submitted (enqueueRequest endpoint ps w) = Suc (submitted w)"
  by (simp add: enqueueRequest_def)

lemma step_submitted: "submitted (step ev w) = submitted w + (if dispatched ev then 1 else 0)"
proof (cases "snd ev")
  case (Request req)
  then show ?thesis
    by (simp add: step_def dispatched_def serve_def enqueueRequest_submitted
        split: sum.splits prod.splits)
next
  case (Reply i reply)
  have "submitted (step ev w) = submitted (w\<lparr>clock := clock w + int (fst ev)\<rparr>)"
    unfolding step_def Reply by (rule reply_submitted)
  then show ?thesis using Reply by (simp add: dispatched_def)
next
  case Timer
  have "submitted (step ev w) = submitted (w\<lparr>clock := clock w + int (fst ev)\<rparr>)"
    unfolding step_def Timer by (rule timer_submitted)
  then show ?thesis using Timer by (simp add: dispatched_def)
next
  case Sweep
  then show ?thesis by (simp add: step_def dispatched_def)
next
  case Flush
  then show ?thesis by (simp add: step_def dispatched_def)
qed

lemma run_submitted: "submitted (run evs w) = submitted w + length (filter dispatched evs)"
  unfolding run_def
proof (induction evs arbitrary: w)
  case Nil
  then show ?case by simp
next
  case (Cons ev evs)
  have "submitted (fold step (ev # evs) w) = submitted (fold step evs (step ev w))" by simp
  also have "\<dots> = submitted (step ev w) + length (filter dispatched evs)" by (rule Cons.IH)
  also have "\<dots> = submitted w + length (filter dispatched (ev # evs))"
    by (simp add: step_submitted)
  finally show ?case .
qed

lemma start_task_cached:
  assumes h: "lookup_handler (task_endpoint t) = Own handler"
    and p: "handler (task_params t) = Cached url cacheKey ttl"
  shows "case fst (cache_lookup (clock w) cacheKey (cache (app w))) of
           Some payload \<Rightarrow>
             settled (start_task t w) = settled w @ [(task_id t, Inr payload)] \<and>
             fetched (start_task t w) = fetched w \<and>
             inflight (start_task t w) = inflight w
         | None \<Rightarrow>
             settled (start_task t w) = settled w \<and>
             fetched (start_task t w) = fetched w @ [url] \<and>
             map fst (inflight (start_task t w)) = map fst (inflight w) @ [task_id t]"
proof (cases "cache_lookup (clock w) cacheKey (cache (app w))")
  case (Pair found c)
  show ?thesis
  proof (cases found)
    case None
    with Pair h p show ?thesis
      by (simp add: start_task_def begin_request_def fetchWithCache_begin_def)
  next
    case (Some payload)
    with Pair h p show ?thesis
      by (simp add: start_task_def begin_request_def fetchWithCache_begin_def)
  qed
qed

text \<open>
  C1 (amended). Every request that passes the server's test of the endpoint (a handler, or a
  name that the object of handlers inherits) is submitted to the dispatcher, once, whatever
  the cache holds: a run submits as many tasks as it has such requests. The cache is consulted
  when the dispatcher starts the task. For a cacheable endpoint, a task whose lookup is a hit
  settles at once with the cached payload and fetches nothing; a task whose lookup is a miss
  fetches its URL from the upstream and waits.
\<close>

theorem every_request_dispatched:
  assumes "lookup_handler (task_endpoint t) = Own handler"
    and "handler (task_params t) = Cached url cacheKey ttl"
  shows "submitted (run evs w) = submitted w + length (filter dispatched evs) \<and>
         (case fst (cache_lookup (clock w) cacheKey (cache (app w))) of
            Some payload \<Rightarrow>
              settled (start_task t w) = settled w @ [(task_id t, Inr payload)] \<and>
              fetched (start_task t w) = fetched w \<and>
              inflight (start_task t w) = inflight w
          | None \<Rightarrow>
              settled (start_task t w) = settled w \<and>
              fetched (start_task t w) = fetched w @ [url] \<and>
              map fst (inflight (start_task t w)) = map fst (inflight w) @ [task_id t])"
  using run_submitted [of evs w] start_task_cached [OF assms, of w] by simp

theorem every_request_dispatched_witness:
  "submitted (run twice (boot 0 app0)) = submitted (boot 0 app0) + length (filter dispatched twice) \<and>
   submitted (run inherited (boot 0 app0))
     = submitted (boot 0 app0) + length (filter dispatched inherited) \<and>
   length (filter dispatched inherited) = 2 \<and>
   settled (start_task \<lparr>task_id = 0, task_endpoint = ''anime'', task_params = [(''id'', ''5'')]\<rparr>
              (boot 10 (app0\<lparr>cache := [(''anime_5'',
                 \<lparr>timestamp = 0, duration = 3600000, data = JNull\<rparr>)]\<rparr>)))
     = [(0, Inr JNull)] \<and>
   fetched (start_task \<lparr>task_id = 0, task_endpoint = ''anime'', task_params = [(''id'', ''5'')]\<rparr>
              (boot 10 (app0\<lparr>cache := [(''anime_5'',
                 \<lparr>timestamp = 0, duration = 3600000, data = JNull\<rparr>)]\<rparr>)))
     = [] \<and>
   fetched (start_task \<lparr>task_id = 0, task_endpoint = ''anime'', task_params = [(''id'', ''5'')]\<rparr>
              (boot 10 app0))
     = [''https://api.jikan.moe/v4/anime/5'']"
proof -
  let ?t = "\<lparr>task_id = 0, task_endpoint = ''anime'', task_params = [(''id'', ''5'')]\<rparr>"
  have h: "lookup_handler (task_endpoint ?t) = Own anime_handler"
    by (simp add: lookup_handler_def handlers_def)
  have p: "anime_handler (task_params ?t)
      = Cached ''https://api.jikan.moe/v4/anime/5'' ''anime_5'' CACHE_DURATION"
    by (simp add: anime_handler_def get_truthy_def BASE_URL_def)
  have two: "length (filter dispatched inherited) = 2" by code_simp
  from two every_request_dispatched [OF h p, of twice "boot 0 app0"]
    every_request_dispatched [OF h p, of inherited "boot 0 app0"]
    every_request_dispatched [OF h p, of "[]"
      "boot 10 (app0\<lparr>cache := [(''anime_5'',
         \<lparr>timestamp = 0, duration = 3600000, data = JNull\<rparr>)]\<rparr>)"]
    every_request_dispatched [OF h p, of "[]" "boot 10 app0"]
  show ?thesis
    by (simp add: boot_def app0_def cache_lookup_def)
qed

text \<open>
  C1 as stated fails: of two quick requests for \<^verbatim>\<open>/api/anime?id=5\<close> both are submitted to the
  dispatcher, and the second, a cache hit, starts only when the cooldown of the first batch
  is over (at 1006 ms); the upstream is fetched once.
\<close>

theorem twice_counterexample:
  "length (filter dispatched twice) = 2 \<and>
   submitted (run twice (boot 0 app0)) = 2 \<and>
   started (run twice (boot 0 app0)) = [(0, 0), (1, 1006)] \<and>
   fetched (run twice (boot 0 app0)) = [''https://api.jikan.moe/v4/anime/5''] \<and>
   cacheMisses (stats (app (run twice (boot 0 app0)))) = 1 \<and>
   cacheHits (stats (app (run twice (boot 0 app0)))) = 1"
  by code_simp

text \<open>
  C3. In every run of the process, no window of one second holds more than
  \<^const>\<open>MAX_REQUESTS_PER_SECOND\<close> starts of tasks, and a task that is the fifth submission or a
  later one starts no earlier than the due time of the first cooldown, which lies one second
  or more after the start of the first task.
\<close>

theorem admission_bound:
  "length (filter (\<lambda>e. s \<le> snd e \<and> snd e < s + 1000) (started (run evs (boot t0 a))))
     \<le> MAX_REQUESTS_PER_SECOND \<and>
   (\<forall>e \<in> set (started (run evs (boot t0 a))). MAX_REQUESTS_PER_SECOND \<le> fst e \<longrightarrow>
      cooldowns (run evs (boot t0 a)) \<noteq> [] \<and>
      fst (hd (started (run evs (boot t0 a)))) = 0 \<and>
      snd (hd (started (run evs (boot t0 a)))) + 1000 \<le> hd (cooldowns (run evs (boot t0 a))) \<and>
      hd (cooldowns (run evs (boot t0 a))) \<le> snd e)"
proof -
  let ?w = "run evs (boot t0 a)"
  have ok: "dispatcher_ok ?w" by (rule dispatcher_ok_reachable)
  then have t: "timing_ok ?w" and c: "cooldowns_ok ?w" and i: "ids_ok ?w"
    by (simp_all add: dispatcher_ok_def)
  from t have win: "length (filter (\<lambda>e. s \<le> snd e \<and> snd e < s + 1000) (started ?w))
     \<le> MAX_REQUESTS_PER_SECOND"
    by (simp add: timing_ok_def)
  have late: "cooldowns ?w \<noteq> [] \<and> fst (hd (started ?w)) = 0 \<and>
      snd (hd (started ?w)) + 1000 \<le> hd (cooldowns ?w) \<and> hd (cooldowns ?w) \<le> snd e"
    if e: "e \<in> set (started ?w)" and big: "MAX_REQUESTS_PER_SECOND \<le> fst e" for e
  proof -
    from c e big have n: "cooldowns ?w \<noteq> []" and le: "hd (cooldowns ?w) \<le> snd e"
      by (auto simp: cooldowns_ok_def)
    from c n have ne: "started ?w \<noteq> []"
      and gap: "snd (hd (started ?w)) + 1000 \<le> hd (cooldowns ?w)"
      by (auto simp: cooldowns_ok_def)
    from i have "map fst (started ?w) = [0..<length (started ?w)]" by (simp add: ids_ok_def)
    then have "hd (map fst (started ?w)) = hd [0..<length (started ?w)]" by simp
    with ne have "fst (hd (started ?w)) = 0" by (simp add: hd_map)
    with n le gap show ?thesis by simp
  qed
  from win late show ?thesis by blast
qed

theorem admission_bound_witness:
  "length (filter (\<lambda>e. 1050 \<le> snd e \<and> snd e < 1050 + 1000) (started (run burst (boot 0 app0))))
     \<le> MAX_REQUESTS_PER_SECOND \<and>
   (4, 1050) \<in> set (started (run burst (boot 0 app0))) \<and>
   cooldowns (run burst (boot 0 app0)) \<noteq> [] \<and>
   fst (hd (started (run burst (boot 0 app0)))) = 0 \<and>
   snd (hd (started (run burst (boot 0 app0)))) + 1000 \<le> hd (cooldowns (run burst (boot 0 app0))) \<and>
   hd (cooldowns (run burst (boot 0 app0))) \<le> 1050"
proof -
  have st: "started (run burst (boot 0 app0)) = [(0, 0), (1, 1050), (2, 1050), (3, 1050), (4, 1050)]"
    by code_simp
  then have mem: "(4, 1050) \<in> set (started (run burst (boot 0 app0)))" by simp
  have big: "MAX_REQUESTS_PER_SECOND \<le> fst (4::nat, 1050::int)"
    by (simp add: MAX_REQUESTS_PER_SECOND_def)
  from admission_bound [of 1050 burst 0 app0] mem big show ?thesis by fastforce
qed

text \<open>The answers of the upstream and the promises they settle.\<close>

lemma answered_frames [simp]:
  "answered (settle i r w) = answered w"
  "answered (arm_cooldown w) = answered w"
  "answered (start_task t w) = answered w"
proof -
  show "answered (settle i r w) = answered w" by (simp add: settle_def)
  show "answered (arm_cooldown w) = answered w" by (simp add: arm_cooldown_def)
  show "answered (start_task t w) = answered w"
    by (cases t w rule: start_task_cases) (simp_all add: settle_def)
qed

lemma fold_start_task_answered [simp]: "answered (fold start_task ts w) = answered w"
  by (induction ts arbitrary: w) simp_all

lemma processQueue_answered [simp]: "answered (processQueue w) = answered w"
  by (cases "processingQueue w \<or> requestQueue w = []")
     (simp_all add: processQueue_idle processQueue_start start_batch_def)



























end
